theory Spec2Isabelle
  imports Main "HOL-Library.AList"
begin

section \<open>JavaScript values that travel through the storage slot\<close>

text \<open>
  The page \<^verbatim>\<open>src/app/page.tsx\<close> keeps a chat transcript and a map of durations in React
  state and mirrors both into one \<^verbatim>\<open>localStorage\<close> slot as JSON text. The TypeScript types
  of the source are erased at run time, so the values are modelled as what
  \<^verbatim>\<open>JSON.parse\<close> can produce.

  A JavaScript string is a sequence of UTF-16 code units; a code unit is a natural
  number here. \<open>js\<close> turns an ASCII literal of this theory into such a string.

  A number is kept as a decimal: \<open>JNum m e\<close> stands for \<open>m * 10 ^ e\<close>. The rounding of
  IEEE doubles is not modelled; the code under study only copies numbers and tests them
  for zero. An object is the list of its own properties in insertion order, with distinct
  keys (JavaScript moves integer-like keys to the front; that reordering is not
  modelled).

  The code units that the reader and the writer of JSON text name by number: 9, 10, 13
  and 32 are white space; 34 is the double quote, 92 the backslash, 47 the slash; 43,
  45 and 46 are plus, minus and the decimal point; 48 to 57 are the digits; 44 is the
  comma and 58 the colon; 91 and 93 are the square brackets, 123 and 125 the braces; 69
  and 101 are \<open>E\<close> and \<open>e\<close>; 98, 102, 110, 114, 116 and 117 are the letters
  \<open>b\<close>, \<open>f\<close>, \<open>n\<close>, \<open>r\<close>, \<open>t\<close> and \<open>u\<close> of the escapes and literals.
\<close>

type_synonym jsstring = "nat list"

definition js :: "string \<Rightarrow> jsstring" where
  "js s = map of_char s"

datatype json =
    JNull
  | JBool bool
  | JNum int int
  | JStr jsstring
  | JArr "json list"
  | JObj "(jsstring \<times> json) list"

datatype error = SecurityError | QuotaExceededError | SyntaxError | TypeError

subsection \<open>\<^verbatim>\<open>JSON.stringify\<close>\<close>

text \<open>
  The serialisation of ECMAScript's \<^verbatim>\<open>JSON.stringify\<close> without indentation: no white
  space, strings quoted by \<^verbatim>\<open>QuoteJSONString\<close> (short escapes for the usual control
  characters, the quote and the backslash; a \<open>u\<close> escape of four lower-case hexadecimal
  digits for the other control characters and for surrogates that are not paired). An
  integer is printed in decimal digits; a number with a decimal exponent is printed as mantissa, \<^verbatim>\<open>e\<close>,
  exponent, which denotes the same number.
\<close>

function digits :: "nat \<Rightarrow> jsstring" where
  "digits n = (if n < 10 then [48 + n] else digits (n div 10) @ [48 + n mod 10])"
  by pat_completeness auto
termination
  by (relation "measure id") auto

declare digits.simps [simp del]

definition show_int :: "int \<Rightarrow> jsstring" where
  "show_int i = (if i < 0 then 45 # digits (nat (- i)) else digits (nat i))"

definition hexdigit :: "nat \<Rightarrow> nat" where
  "hexdigit d = (if d < 10 then 48 + d else 87 + d)"

definition uescape :: "nat \<Rightarrow> jsstring" where
  "uescape c = [92, 117, hexdigit (c div 4096 mod 16), hexdigit (c div 256 mod 16),
                hexdigit (c div 16 mod 16), hexdigit (c mod 16)]"

definition is_high :: "nat \<Rightarrow> bool" where
  "is_high c = (55296 \<le> c \<and> c \<le> 56319)"

definition is_low :: "nat \<Rightarrow> bool" where
  "is_low c = (56320 \<le> c \<and> c \<le> 57343)"

definition quote_unit :: "nat \<Rightarrow> jsstring" where
  "quote_unit c =
     (if c = 8 then [92, 98]
      else if c = 9 then [92, 116]
      else if c = 10 then [92, 110]
      else if c = 12 then [92, 102]
      else if c = 13 then [92, 114]
      else if c = 34 then [92, 34]
      else if c = 92 then [92, 92]
      else if c < 32 \<or> is_high c \<or> is_low c then uescape c
      else [c])"

fun quote_units :: "jsstring \<Rightarrow> jsstring" where
  "quote_units [] = []"
| "quote_units [c] = quote_unit c"
| "quote_units (c # d # cs) =
     (if is_high c \<and> is_low d then c # d # quote_units cs
      else quote_unit c @ quote_units (d # cs))"

definition quote :: "jsstring \<Rightarrow> jsstring" where
  "quote s = 34 # quote_units s @ [34]"

fun JSON_stringify :: "json \<Rightarrow> jsstring"
  and stringify_elements :: "json list \<Rightarrow> jsstring"
  and stringify_members :: "(jsstring \<times> json) list \<Rightarrow> jsstring"
where
  "JSON_stringify JNull = js ''null''"
| "JSON_stringify (JBool b) = (if b then js ''true'' else js ''false'')"
| "JSON_stringify (JNum m e) = show_int m @ (if e = 0 then [] else 101 # show_int e)"
| "JSON_stringify (JStr s) = quote s"
| "JSON_stringify (JArr xs) = 91 # stringify_elements xs @ [93]"
| "JSON_stringify (JObj kvs) = 123 # stringify_members kvs @ [125]"
| "stringify_elements [] = []"
| "stringify_elements [x] = JSON_stringify x"
| "stringify_elements (x # y # ys) = JSON_stringify x @ 44 # stringify_elements (y # ys)"
| "stringify_members [] = []"
| "stringify_members [(k, v)] = quote k @ 58 # JSON_stringify v"
| "stringify_members ((k, v) # p # ps) =
     quote k @ 58 # JSON_stringify v @ 44 # stringify_members (p # ps)"

subsection \<open>\<^verbatim>\<open>JSON.parse\<close>\<close>

text \<open>
  A recursive-descent reader of the JSON grammar: white space, the three literals,
  numbers with optional fraction and exponent, strings with their escapes, arrays and
  objects. A later duplicate of an object key overwrites the value of the earlier one,
  as \<^verbatim>\<open>JSON.parse\<close> does. Every failure is the \<^verbatim>\<open>SyntaxError\<close> that
  \<^verbatim>\<open>JSON.parse\<close> throws.
\<close>

definition is_ws :: "nat \<Rightarrow> bool" where
  "is_ws c = (c = 32 \<or> c = 9 \<or> c = 10 \<or> c = 13)"

definition is_digit :: "nat \<Rightarrow> bool" where
  "is_digit c = (48 \<le> c \<and> c \<le> 57)"

definition skip_ws :: "jsstring \<Rightarrow> jsstring" where
  "skip_ws s = dropWhile is_ws s"

definition digits_val :: "jsstring \<Rightarrow> nat" where
  "digits_val ds = foldl (\<lambda>a c. 10 * a + (c - 48)) 0 ds"

definition hexval :: "nat \<Rightarrow> nat option" where
  "hexval c =
     (if 48 \<le> c \<and> c \<le> 57 then Some (c - 48)
      else if 97 \<le> c \<and> c \<le> 102 then Some (c - 87)
      else if 65 \<le> c \<and> c \<le> 70 then Some (c - 55)
      else None)"

definition hex4val :: "nat \<Rightarrow> nat \<Rightarrow> nat \<Rightarrow> nat \<Rightarrow> nat option" where
  "hex4val a b c d =
     (case (hexval a, hexval b, hexval c, hexval d) of
        (Some w, Some x, Some y, Some z) \<Rightarrow> Some (((w * 16 + x) * 16 + y) * 16 + z)
      | _ \<Rightarrow> None)"

definition unescape :: "nat \<Rightarrow> nat option" where
  "unescape e =
     (if e = 34 then Some 34
      else if e = 92 then Some 92
      else if e = 47 then Some 47
      else if e = 98 then Some 8
      else if e = 102 then Some 12
      else if e = 110 then Some 10
      else if e = 114 then Some 13
      else if e = 116 then Some 9
      else None)"

definition cons_unit :: "nat \<Rightarrow> (jsstring \<times> jsstring) option \<Rightarrow> (jsstring \<times> jsstring) option" where
  "cons_unit u res = (case res of None \<Rightarrow> None | Some (str, rest) \<Rightarrow> Some (u # str, rest))"

fun parse_chars :: "jsstring \<Rightarrow> (jsstring \<times> jsstring) option" where
  "parse_chars [] = None"
| "parse_chars (c # cs) =
     (if c = 34 then Some ([], cs)
      else if c = 92 then
        (case cs of
           [] \<Rightarrow> None
         | e # es \<Rightarrow>
             if e = 117 then
               (case es of
                  h1 # h2 # h3 # h4 # r \<Rightarrow>
                    (case hex4val h1 h2 h3 h4 of
                       None \<Rightarrow> None
                     | Some u \<Rightarrow> cons_unit u (parse_chars r))
                | _ \<Rightarrow> None)
             else
               (case unescape e of
                  None \<Rightarrow> None
                | Some u \<Rightarrow> cons_unit u (parse_chars es)))
      else if c < 32 then None
      else cons_unit c (parse_chars cs))"

definition parse_fraction :: "jsstring \<Rightarrow> (jsstring \<times> jsstring) option" where
  "parse_fraction s =
     (case s of
        [] \<Rightarrow> Some ([], s)
      | c # cs \<Rightarrow>
          if c = 46 then
            (if takeWhile is_digit cs = [] then None
             else Some (takeWhile is_digit cs, dropWhile is_digit cs))
          else Some ([], s))"

definition parse_exponent :: "jsstring \<Rightarrow> (int \<times> jsstring) option" where
  "parse_exponent s =
     (case s of
        [] \<Rightarrow> Some (0, s)
      | c # cs \<Rightarrow>
          if c = 101 \<or> c = 69 then
            (let neg = (cs \<noteq> [] \<and> hd cs = 45);
                 ds = (if cs \<noteq> [] \<and> (hd cs = 45 \<or> hd cs = 43) then tl cs else cs);
                 ep = takeWhile is_digit ds
             in if ep = [] then None
                else Some (if neg then - int (digits_val ep) else int (digits_val ep),
                           dropWhile is_digit ds))
          else Some (0, s))"

definition parse_number :: "jsstring \<Rightarrow> (json \<times> jsstring) option" where
  "parse_number s =
     (let neg = (s \<noteq> [] \<and> hd s = 45);
          s1 = (if neg then tl s else s);
          ip = takeWhile is_digit s1
      in if ip = [] \<or> (hd ip = 48 \<and> 1 < length ip) then None
         else
           (case parse_fraction (dropWhile is_digit s1) of
              None \<Rightarrow> None
            | Some (fp, s3) \<Rightarrow>
                (case parse_exponent s3 of
                   None \<Rightarrow> None
                 | Some (e, s4) \<Rightarrow>
                     Some (JNum (if neg then - int (digits_val (ip @ fp))
                                 else int (digits_val (ip @ fp)))
                                (e - int (length fp)), s4))))"

definition parse_literal :: "jsstring \<Rightarrow> json \<Rightarrow> jsstring \<Rightarrow> (json \<times> jsstring) option" where
  "parse_literal word v s =
     (if take (length word) s = word then Some (v, drop (length word) s) else None)"

definition define_props :: "(jsstring \<times> json) list \<Rightarrow> (jsstring \<times> json) list" where
  "define_props kvs = foldl (\<lambda>acc kv. AList.update (fst kv) (snd kv) acc) [] kvs"

text \<open>
  The three readers call each other; the comparisons of lengths that guard the calls
  after a comma or a colon make the recursion well-founded. They never fail on their
  own: the rest of the input after a value is always shorter than the input
  (\<open>parse_value_shorter\<close> below).
\<close>

function parse_value :: "jsstring \<Rightarrow> (json \<times> jsstring) option"
  and parse_elements :: "jsstring \<Rightarrow> (json list \<times> jsstring) option"
  and parse_members :: "jsstring \<Rightarrow> ((jsstring \<times> json) list \<times> jsstring) option"
where
  "parse_value s =
     (case skip_ws s of
        [] \<Rightarrow> None
      | c # cs \<Rightarrow>
          if c = 123 then
            (case skip_ws cs of
               [] \<Rightarrow> None
             | d # ds \<Rightarrow>
                 if d = 125 then Some (JObj [], ds)
                 else (case parse_members (d # ds) of
                         None \<Rightarrow> None
                       | Some (kvs, r) \<Rightarrow> Some (JObj (define_props kvs), r)))
          else if c = 91 then
            (case skip_ws cs of
               [] \<Rightarrow> None
             | d # ds \<Rightarrow>
                 if d = 93 then Some (JArr [], ds)
                 else (case parse_elements (d # ds) of
                         None \<Rightarrow> None
                       | Some (vs, r) \<Rightarrow> Some (JArr vs, r)))
          else if c = 34 then
            (case parse_chars cs of
               None \<Rightarrow> None
             | Some (str, r) \<Rightarrow> Some (JStr str, r))
          else if c = 116 then parse_literal (js ''true'') (JBool True) (c # cs)
          else if c = 102 then parse_literal (js ''false'') (JBool False) (c # cs)
          else if c = 110 then parse_literal (js ''null'') JNull (c # cs)
          else parse_number (c # cs))"
| "parse_elements s =
     (case parse_value s of
        None \<Rightarrow> None
      | Some (v, r) \<Rightarrow>
          (case skip_ws r of
             [] \<Rightarrow> None
           | c # cs \<Rightarrow>
               if c = 93 then Some ([v], cs)
               else if c = 44 \<and> length cs < length s then
                 (case parse_elements cs of
                    None \<Rightarrow> None
                  | Some (vs, r') \<Rightarrow> Some (v # vs, r'))
               else None))"
| "parse_members s =
     (case skip_ws s of
        [] \<Rightarrow> None
      | c # cs \<Rightarrow>
          if c \<noteq> 34 then None
          else
            (case parse_chars cs of
               None \<Rightarrow> None
             | Some (k, r1) \<Rightarrow>
                 (case skip_ws r1 of
                    [] \<Rightarrow> None
                  | c1 # r2 \<Rightarrow>
                      if c1 = 58 \<and> length r2 < length s then
                        (case parse_value r2 of
                           None \<Rightarrow> None
                         | Some (v, r3) \<Rightarrow>
                             (case skip_ws r3 of
                                [] \<Rightarrow> None
                              | c3 # r4 \<Rightarrow>
                                  if c3 = 125 then Some ([(k, v)], r4)
                                  else if c3 = 44 \<and> length r4 < length s then
                                    (case parse_members r4 of
                                       None \<Rightarrow> None
                                     | Some (kvs, r5) \<Rightarrow> Some ((k, v) # kvs, r5))
                                  else None))
                      else None)))"
  by pat_completeness auto
termination
proof -
  have le: "length (skip_ws x) \<le> length x" for x
    by (simp add: skip_ws_def length_dropWhile_le)
  have step: "Suc (Suc (Suc (2 * length ds))) < 2 * length s"
    if "skip_ws s = c # cs" and "skip_ws cs = d # ds" for s c cs d ds
    using le [of s] le [of cs] that by simp
  show ?thesis
    by (relation "measure (\<lambda>x. case x of Inl s \<Rightarrow> 2 * length s
                                    | Inr (Inl s) \<Rightarrow> 2 * length s + 1
                                    | Inr (Inr s) \<Rightarrow> 2 * length s + 1)")
       (auto intro: step)
qed

declare parse_value.simps [simp del] parse_elements.simps [simp del] parse_members.simps [simp del]

definition JSON_parse :: "jsstring \<Rightarrow> error + json" where
  "JSON_parse s =
     (case parse_value s of
        None \<Rightarrow> Inl SyntaxError
      | Some (v, r) \<Rightarrow> if skip_ws r = [] then Inr v else Inl SyntaxError)"

section \<open>The storage adapter\<close>

text \<open>
  \<^verbatim>\<open>localStorage\<close> is a table from keys to strings. Its methods throw when access to
  storage is refused or when a value cannot be set (a full quota, a disabled store); the
  two flags say whether a read and a write throw. \<open>window_defined\<close> is the test
  \<^verbatim>\<open>typeof window !== "undefined"\<close>, false while the page is rendered on the server. The
  messages that the source sends to \<^verbatim>\<open>console.error\<close> are not modelled.
\<close>

record Storage =
  items :: "(jsstring \<times> jsstring) list"
  getItem_throws :: bool
  setItem_throws :: bool

record environment =
  window_defined :: bool
  localStorage :: Storage

definition getItem :: "Storage \<Rightarrow> jsstring \<Rightarrow> error + jsstring option" where
  "getItem ls k = (if getItem_throws ls then Inl SecurityError else Inr (map_of (items ls) k))"

definition setItem :: "Storage \<Rightarrow> jsstring \<Rightarrow> jsstring \<Rightarrow> error + Storage" where
  "setItem ls k v =
     (if setItem_throws ls then Inl QuotaExceededError
      else Inr (ls\<lparr>items := AList.update k v (items ls)\<rparr>))"

definition STORAGE_KEY :: jsstring where
  "STORAGE_KEY = js ''chat-messages''"

record StorageData =
  messages :: json
  durations :: json

definition empty_data :: StorageData where
  "empty_data = \<lparr>messages = JArr [], durations = JObj []\<rparr>"

text \<open>
  The own enumerable properties of a value, as object spread copies them; property
  lookup, for a key that no prototype defines (the source reads \<^verbatim>\<open>messages\<close>,
  \<^verbatim>\<open>durations\<close> and \<^verbatim>\<open>length\<close>), where \<open>None\<close> is \<^verbatim>\<open>undefined\<close> and reading a
  property of \<^verbatim>\<open>null\<close> throws; and the operator \<^verbatim>\<open>||\<close>, which yields its right operand
  when the left one is \<^verbatim>\<open>undefined\<close>, \<^verbatim>\<open>null\<close>, \<^verbatim>\<open>false\<close>, zero or the empty string.
\<close>

definition own_props :: "json \<Rightarrow> (jsstring \<times> json) list" where
  "own_props v =
     (case v of
        JObj kvs \<Rightarrow> kvs
      | JArr xs \<Rightarrow> zip (map digits [0..<length xs]) xs
      | JStr s \<Rightarrow> zip (map digits [0..<length s]) (map (\<lambda>c. JStr [c]) s)
      | _ \<Rightarrow> [])"

definition get_prop :: "json \<Rightarrow> jsstring \<Rightarrow> error + json option" where
  "get_prop v k =
     (case v of
        JNull \<Rightarrow> Inl TypeError
      | JArr xs \<Rightarrow>
          if k = js ''length'' then Inr (Some (JNum (int (length xs)) 0))
          else Inr (map_of (own_props v) k)
      | JStr s \<Rightarrow>
          if k = js ''length'' then Inr (Some (JNum (int (length s)) 0))
          else Inr (map_of (own_props v) k)
      | _ \<Rightarrow> Inr (map_of (own_props v) k))"

definition falsy :: "json \<Rightarrow> bool" where
  "falsy v =
     (case v of
        JNull \<Rightarrow> True
      | JBool b \<Rightarrow> \<not> b
      | JNum m e \<Rightarrow> m = 0
      | JStr s \<Rightarrow> s = []
      | _ \<Rightarrow> False)"

definition or_else :: "json option \<Rightarrow> json \<Rightarrow> json" where
  "or_else a b = (case a of None \<Rightarrow> b | Some v \<Rightarrow> if falsy v then b else v)"

definition loadMessagesFromStorage :: "environment \<Rightarrow> StorageData" where
  "loadMessagesFromStorage env =
     (if \<not> window_defined env then empty_data
      else
        case getItem (localStorage env) STORAGE_KEY of
          Inl err \<Rightarrow> empty_data
        | Inr None \<Rightarrow> empty_data
        | Inr (Some stored) \<Rightarrow>
            if stored = [] then empty_data
            else
              (case JSON_parse stored of
                 Inl err \<Rightarrow> empty_data
               | Inr parsed \<Rightarrow>
                   (case get_prop parsed (js ''messages'') of
                      Inl err \<Rightarrow> empty_data
                    | Inr m \<Rightarrow>
                        (case get_prop parsed (js ''durations'') of
                           Inl err \<Rightarrow> empty_data
                         | Inr d \<Rightarrow>
                             \<lparr>messages = or_else m (JArr []),
                              durations = or_else d (JObj [])\<rparr>))))"

definition saveMessagesToStorage :: "environment \<Rightarrow> json \<Rightarrow> json \<Rightarrow> environment" where
  "saveMessagesToStorage env msgs durs =
     (if \<not> window_defined env then env
      else
        case setItem (localStorage env) STORAGE_KEY
               (JSON_stringify (JObj [(js ''messages'', msgs), (js ''durations'', durs)])) of
          Inl err \<Rightarrow> env
        | Inr ls \<Rightarrow> env\<lparr>localStorage := ls\<rparr>)"

section \<open>The component \<^verbatim>\<open>Chat\<close>\<close>

text \<open>
  \<open>hooks\<close> are the values of the React hooks: the transcript \<open>messages\<close> of
  \<^verbatim>\<open>useChat\<close>, the map \<open>durations\<close>, \<open>isClient\<close> and \<open>initialMessages\<close>. A render reads
  them and computes \<open>stored\<close> anew; the handlers and effects it creates keep those values
  (a \<open>closure\<close>) until the next render. The state of the component is the hooks, the
  reference \<open>welcomeShownRef\<close>, which effects read and write directly, the environment,
  and the texts handed to \<^verbatim>\<open>toast.success\<close>.
\<close>

record hooks = StorageData +
  isClient :: bool
  initialMessages :: json

record closure = hooks +
  stored :: StorageData

record chat_state = hooks +
  welcomeShownRef :: bool
  env :: environment
  toasts :: "jsstring list"

definition Chat_first_render :: "environment \<Rightarrow> chat_state" where
  "Chat_first_render e =
     (let stored = (if window_defined e then loadMessagesFromStorage e else empty_data)
      in \<lparr>messages = messages stored, durations = JObj [], isClient = False,
          initialMessages = messages stored, welcomeShownRef = False, env = e,
          toasts = []\<rparr>)"

definition Chat_render :: "chat_state \<Rightarrow> closure" where
  "Chat_render s =
     \<lparr>messages = messages s, durations = durations s, isClient = isClient s,
      initialMessages = initialMessages s,
      stored = (if window_defined (env s) then loadMessagesFromStorage (env s)
                else empty_data)\<rparr>"

definition mount_effect :: "closure \<Rightarrow> chat_state \<Rightarrow> chat_state" where
  "mount_effect c s =
     s\<lparr>isClient := True, durations := durations (stored c), messages := messages (stored c)\<rparr>"

definition save_effect :: "closure \<Rightarrow> chat_state \<Rightarrow> chat_state" where
  "save_effect c s =
     (if isClient c then s\<lparr>env := saveMessagesToStorage (env s) (messages c) (durations c)\<rparr>
      else s)"

text \<open>
  \<^verbatim>\<open>WELCOME_MESSAGE\<close> comes from the configuration module, which is not part of the
  source at hand: it is the parameter \<open>wm\<close>. \<open>now\<close> is the value of \<^verbatim>\<open>Date.now()\<close>.
\<close>

definition welcomeMessage :: "jsstring \<Rightarrow> nat \<Rightarrow> json" where
  "welcomeMessage wm now =
     JObj [(js ''id'', JStr (js ''welcome-'' @ digits now)),
           (js ''role'', JStr (js ''assistant'')),
           (js ''parts'', JArr [JObj [(js ''type'', JStr (js ''text'')),
                                     (js ''text'', JStr wm)]])]"

definition length_is_0 :: "json \<Rightarrow> bool" where
  "length_is_0 v = (case get_prop v (js ''length'') of Inr (Some (JNum m e)) \<Rightarrow> m = 0 | _ \<Rightarrow> False)"

definition welcome_due :: "closure \<Rightarrow> chat_state \<Rightarrow> bool" where
  "welcome_due c s = (isClient c \<and> length_is_0 (initialMessages c) \<and> \<not> welcomeShownRef s)"

definition welcome_effect :: "jsstring \<Rightarrow> nat \<Rightarrow> closure \<Rightarrow> chat_state \<Rightarrow> chat_state" where
  "welcome_effect wm now c s =
     (if welcome_due c s then
        s\<lparr>messages := JArr [welcomeMessage wm now],
          env := saveMessagesToStorage (env s) (JArr [welcomeMessage wm now]) (JObj []),
          welcomeShownRef := True\<rparr>
      else s)"

definition handleDurationChange :: "jsstring \<Rightarrow> json \<Rightarrow> chat_state \<Rightarrow> chat_state" where
  "handleDurationChange key duration s =
     s\<lparr>durations := JObj (AList.update key duration (own_props (durations s)))\<rparr>"

definition clearChat :: "chat_state \<Rightarrow> chat_state" where
  "clearChat s =
     s\<lparr>messages := JArr [], durations := JObj [],
       env := saveMessagesToStorage (env s) (JArr []) (JObj []),
       toasts := toasts s @ [js ''Chat cleared'']\<rparr>"

subsection \<open>Runs of the component\<close>

text \<open>
  What can happen to a mounted component, one event at a time: React renders it again,
  one of the three effects runs with the closure of the last render, a handler is called,
  or the chat engine replaces the transcript (\<^verbatim>\<open>onSubmit\<close> only forwards the text to the
  engine, so sending and streaming appear as such replacements). The runs are all
  sequences of such events, which covers every schedule of React for one mounted
  component; \<open>injections\<close> counts the events of a run at which the welcome effect
  fires. Nothing but the component writes to the storage during a run.
\<close>

datatype event =
    Render
  | MountEffect
  | SaveEffect
  | WelcomeEffect nat
  | DurationChange jsstring json
  | ClearChat
  | EngineUpdate json

fun step :: "jsstring \<Rightarrow> event \<Rightarrow> closure \<times> chat_state \<Rightarrow> closure \<times> chat_state" where
  "step wm Render (c, s) = (Chat_render s, s)"
| "step wm MountEffect (c, s) = (c, mount_effect c s)"
| "step wm SaveEffect (c, s) = (c, save_effect c s)"
| "step wm (WelcomeEffect now) (c, s) = (c, welcome_effect wm now c s)"
| "step wm (DurationChange key duration) (c, s) = (c, handleDurationChange key duration s)"
| "step wm ClearChat (c, s) = (c, clearChat s)"
| "step wm (EngineUpdate ms) (c, s) = (c, s\<lparr>messages := ms\<rparr>)"

fun run :: "jsstring \<Rightarrow> event list \<Rightarrow> closure \<times> chat_state \<Rightarrow> closure \<times> chat_state" where
  "run wm [] cs = cs"
| "run wm (e # es) cs = run wm es (step wm e cs)"

fun injections :: "jsstring \<Rightarrow> event list \<Rightarrow> closure \<times> chat_state \<Rightarrow> nat" where
  "injections wm [] cs = 0"
| "injections wm (e # es) cs =
     (case e of
        WelcomeEffect now \<Rightarrow> if welcome_due (fst cs) (snd cs) then 1 else 0
      | _ \<Rightarrow> 0) + injections wm es (step wm e cs)"

definition first_mount :: "environment \<Rightarrow> closure \<times> chat_state" where
  "first_mount e = (Chat_render (Chat_first_render e), Chat_first_render e)"

text \<open>
  The events of a mount up to the point where the welcome effect is about to run for
  the second time (the first time it runs with the closure of the first render, in which
  \<open>isClient\<close> is still false); and the runs in which no update by the engine, that is
  no submit, comes before the mount effect.
\<close>

definition before_welcome :: "nat \<Rightarrow> event list" where
  "before_welcome now = [MountEffect, SaveEffect, WelcomeEffect now, Render, SaveEffect]"


text \<open>
  The schedule React follows when it mounts the component: after the first render all
  three effects run in source order; after a later render an effect runs when one of its
  dependencies differs from the render before; a render follows whenever an effect
  changed a hook. (React compares dependencies by reference and the model by value; in
  the commits of a mount both give the same answer, since \<open>isClient\<close> changes in the
  second and the transcript, if anything, in the third.) Three rounds reach a state where
  nothing is left to run (\<open>mount_Chat_settled\<close> below). The one instant \<open>now\<close> is the
  value of \<^verbatim>\<open>Date.now()\<close> at the firing of the welcome effect, which happens at most
  once.
\<close>

definition first_commit :: "jsstring \<Rightarrow> nat \<Rightarrow> closure \<Rightarrow> chat_state \<Rightarrow> chat_state" where
  "first_commit wm now c s = welcome_effect wm now c (save_effect c (mount_effect c s))"

definition next_commit :: "jsstring \<Rightarrow> nat \<Rightarrow> closure \<Rightarrow> closure \<Rightarrow> chat_state \<Rightarrow> chat_state" where
  "next_commit wm now p c s =
     (let s1 = (if (messages p, durations p, isClient p) \<noteq> (messages c, durations c, isClient c)
                then save_effect c s else s)
      in if (isClient p, initialMessages p) \<noteq> (isClient c, initialMessages c)
         then welcome_effect wm now c s1 else s1)"

definition mount_Chat :: "jsstring \<Rightarrow> nat \<Rightarrow> environment \<Rightarrow> closure \<times> chat_state" where
  "mount_Chat wm now e =
     (let s0 = Chat_first_render e;
          c1 = Chat_render s0;
          s1 = first_commit wm now c1 s0;
          c2 = Chat_render s1;
          s2 = next_commit wm now c1 c2 s1;
          c3 = Chat_render s2;
          s3 = next_commit wm now c2 c3 s2
      in (c3, s3))"

section \<open>Typed conversation records\<close>

text \<open>
  Modelled from the spec: the type \<^verbatim>\<open>UIMessage\<close> belongs to the chat library and is not
  part of the source at hand. A message has an id, one of three roles and a sequence of
  text segments; a conversation record is a sequence of messages and a map from message
  ids to elapsed milliseconds. The functions below give the JavaScript value of each.
\<close>

datatype role = User | Assistant | System

datatype part = TextPart jsstring

record Message =
  message_id :: jsstring
  message_role :: role
  message_parts :: "part list"

definition role_json :: "role \<Rightarrow> json" where
  "role_json r =
     JStr (case r of User \<Rightarrow> js ''user'' | Assistant \<Rightarrow> js ''assistant'' | System \<Rightarrow> js ''system'')"

definition part_json :: "part \<Rightarrow> json" where
  "part_json p = (case p of TextPart t \<Rightarrow> JObj [(js ''type'', JStr (js ''text'')), (js ''text'', JStr t)])"

definition message_json :: "Message \<Rightarrow> json" where
  "message_json m =
     JObj [(js ''id'', JStr (message_id m)),
           (js ''role'', role_json (message_role m)),
           (js ''parts'', JArr (map part_json (message_parts m)))]"

definition messages_json :: "Message list \<Rightarrow> json" where
  "messages_json ms = JArr (map message_json ms)"

definition durations_json :: "(jsstring \<times> nat) list \<Rightarrow> json" where
  "durations_json ds = JObj (map (\<lambda>kd. (fst kd, JNum (int (snd kd)) 0)) ds)"

text \<open>A value all of whose objects have distinct keys, as every JavaScript object has.\<close>

fun wf_json :: "json \<Rightarrow> bool"
  and wf_elements :: "json list \<Rightarrow> bool"
  and wf_members :: "(jsstring \<times> json) list \<Rightarrow> bool"
where
  "wf_json (JArr xs) = wf_elements xs"
| "wf_json (JObj kvs) = (distinct (map fst kvs) \<and> wf_members kvs)"
| "wf_json JNull = True"
| "wf_json (JBool b) = True"
| "wf_json (JNum m e) = True"
| "wf_json (JStr s) = True"
| "wf_elements [] = True"
| "wf_elements (x # xs) = (wf_json x \<and> wf_elements xs)"
| "wf_members [] = True"
| "wf_members (kv # kvs) = (wf_json (snd kv) \<and> wf_members kvs)"

subsection \<open>Auxiliary notions for the statements\<close>

text \<open>
  A browser whose storage works and holds the given items, and one whose storage can be
  read but refuses every write; the test for a value being an object; and the texts that
  may follow a value inside an array or an object (nothing, a comma or a closing bracket).
\<close>

definition browser :: "(jsstring \<times> jsstring) list \<Rightarrow> environment" where
  "browser kvs =
     \<lparr>window_defined = True,
      localStorage = \<lparr>items = kvs, getItem_throws = False, setItem_throws = False\<rparr>\<rparr>"

definition full_browser :: "(jsstring \<times> jsstring) list \<Rightarrow> environment" where
  "full_browser kvs =
     \<lparr>window_defined = True,
      localStorage = \<lparr>items = kvs, getItem_throws = False, setItem_throws = True\<rparr>\<rparr>"

definition is_object :: "json \<Rightarrow> bool" where
  "is_object v = (case v of JObj kvs \<Rightarrow> True | _ \<Rightarrow> False)"

definition follow :: "jsstring \<Rightarrow> bool" where
  "follow r = (r = [] \<or> hd r = 44 \<or> hd r = 93 \<or> hd r = 125)"

text \<open>
  Sample data: one user message, the stored text of a record that holds it, and the stored
  text of a record with no message and one duration.
\<close>

definition hi_message :: Message where
  "hi_message =
     \<lparr>message_id = js ''m1'', message_role = User, message_parts = [TextPart (js ''hi'')]\<rparr>"

definition hi_blob :: jsstring where
  "hi_blob = js ''{\"messages\":[{\"id\":\"m1\",\"role\":\"user\",\"parts\":[{\"type\":\"text\",\"text\":\"hi\"}]}],\"durations\":{}}''"

definition durations_blob :: jsstring where
  "durations_blob = js ''{\"messages\":[],\"durations\":{\"a\":1}}''"

section \<open>Facts about the codec\<close>

subsection \<open>Numbers\<close>

lemma digits_nonempty: "digits n \<noteq> []"
  by (subst digits.simps) simp

lemma digits_all_digit: "list_all is_digit (digits n)"
proof (induction n rule: digits.induct)
  case (1 n)
  show ?case
  proof (cases "n < 10")
    case True
    then show ?thesis by (subst digits.simps) (simp add: is_digit_def)
  next
    case False
    have "is_digit (48 + n mod 10)" by (simp add: is_digit_def)
    with False 1 show ?thesis
      by (subst digits.simps) simp
  qed
qed

lemma digits_val_snoc: "digits_val (ds @ [c]) = 10 * digits_val ds + (c - 48)"
  by (simp add: digits_val_def)

lemma digits_val_digits: "digits_val (digits n) = n"
proof (induction n rule: digits.induct)
  case (1 n)
  show ?case
  proof (cases "n < 10")
    case True
    then show ?thesis by (subst digits.simps) (simp add: digits_val_def)
  next
    case False
    with 1 show ?thesis
      by (subst digits.simps) (simp add: digits_val_snoc)
  qed
qed

lemma digits_leading_zero: "hd (digits n) = 48 \<Longrightarrow> digits n = [48]"
proof (induction n rule: digits.induct)
  case (1 n)
  show ?case
  proof (cases "n < 10")
    case True
    with 1(2) show ?thesis by (subst (asm) digits.simps, subst digits.simps) simp
  next
    case False
    from 1(2) False have "hd (digits (n div 10)) = 48"
      by (subst (asm) digits.simps) (simp add: digits_nonempty)
    with 1(1) False have "digits (n div 10) = [48]" by simp
    then have "digits_val (digits (n div 10)) = 0" by (simp add: digits_val_def)
    then have "n div 10 = 0" by (simp add: digits_val_digits)
    with False show ?thesis by simp
  qed
qed

lemma takeWhile_digits: "r = [] \<or> \<not> is_digit (hd r) \<Longrightarrow> takeWhile is_digit (digits n @ r) = digits n"
  using digits_all_digit [of n] by (cases r) (auto simp: takeWhile_append2 list_all_iff)

lemma dropWhile_digits: "r = [] \<or> \<not> is_digit (hd r) \<Longrightarrow> dropWhile is_digit (digits n @ r) = r"
  using digits_all_digit [of n] by (cases r) (auto simp: dropWhile_append2 list_all_iff)

lemma digits_not_minus: "hd (digits n) \<noteq> 45"
  using digits_all_digit [of n] digits_nonempty [of n]
  by (cases "digits n") (auto simp: is_digit_def)

lemma parse_fraction_none: "r = [] \<or> hd r \<noteq> 46 \<Longrightarrow> parse_fraction r = Some ([], r)"
  by (cases r) (auto simp: parse_fraction_def)

lemma parse_exponent_none: "r = [] \<or> (hd r \<noteq> 101 \<and> hd r \<noteq> 69) \<Longrightarrow> parse_exponent r = Some (0, r)"
  by (cases r) (auto simp: parse_exponent_def)

lemma show_int_nonneg: "0 \<le> e \<Longrightarrow> show_int e = digits (nat e)"
  by (simp add: show_int_def)

lemma show_int_neg: "e < 0 \<Longrightarrow> show_int e = 45 # digits (nat (- e))"
  by (simp add: show_int_def)

lemma parse_exponent_show:
  assumes nd: "r = [] \<or> \<not> is_digit (hd r)"
  shows "parse_exponent (101 # show_int e @ r) = Some (e, r)"
proof (cases "e < 0")
  case True
  then show ?thesis
    by (simp add: parse_exponent_def show_int_neg Let_def takeWhile_digits [OF nd]
        dropWhile_digits [OF nd] digits_nonempty digits_val_digits)
next
  case False
  have "hd (digits (nat e) @ r) = hd (digits (nat e))"
    by (simp add: digits_nonempty)
  moreover have "hd (digits (nat e)) \<noteq> 45" "hd (digits (nat e)) \<noteq> 43"
    using digits_all_digit [of "nat e"] digits_nonempty [of "nat e"]
    by (cases "digits (nat e)"; simp add: is_digit_def)+
  ultimately show ?thesis using False
    by (simp add: parse_exponent_def show_int_nonneg Let_def takeWhile_digits [OF nd]
        dropWhile_digits [OF nd] digits_nonempty digits_val_digits)
qed

lemma parse_number_digits:
  assumes nd: "r = [] \<or> \<not> is_digit (hd r)"
    and fr: "parse_fraction r = Some (fp, s3)"
    and ex: "parse_exponent s3 = Some (e, s4)"
  shows "parse_number (digits n @ r) =
           Some (JNum (int (digits_val (digits n @ fp))) (e - int (length fp)), s4)"
proof -
  have lead: "\<not> (hd (digits n) = 48 \<and> 1 < length (digits n))"
    using digits_leading_zero [of n] by auto
  have hd: "hd (digits n @ r) = hd (digits n)" by (simp add: digits_nonempty)
  show ?thesis
    using lead digits_not_minus [of n]
    by (simp add: parse_number_def Let_def hd takeWhile_digits [OF nd] dropWhile_digits [OF nd]
        digits_nonempty fr ex)
qed

lemma parse_number_minus_digits:
  assumes nd: "r = [] \<or> \<not> is_digit (hd r)"
    and fr: "parse_fraction r = Some (fp, s3)"
    and ex: "parse_exponent s3 = Some (e, s4)"
  shows "parse_number (45 # digits n @ r) =
           Some (JNum (- int (digits_val (digits n @ fp))) (e - int (length fp)), s4)"
proof -
  have lead: "\<not> (hd (digits n) = 48 \<and> 1 < length (digits n))"
    using digits_leading_zero [of n] by auto
  show ?thesis
    using lead
    by (simp add: parse_number_def Let_def takeWhile_digits [OF nd] dropWhile_digits [OF nd]
        digits_nonempty fr ex)
qed

lemma parse_number_show_int:
  assumes nd: "r = [] \<or> \<not> is_digit (hd r)"
    and fr: "parse_fraction r = Some ([], s3)"
    and ex: "parse_exponent s3 = Some (e, s4)"
  shows "parse_number (show_int m @ r) = Some (JNum m e, s4)"
proof (cases "m < 0")
  case True
  then show ?thesis
    using parse_number_minus_digits [OF nd fr ex, of "nat (- m)"]
    by (simp add: show_int_neg digits_val_digits)
next
  case False
  then show ?thesis
    using parse_number_digits [OF nd fr ex, of "nat m"]
    by (simp add: show_int_nonneg digits_val_digits)
qed

lemma parse_number_stringify:
  assumes "follow r"
  shows "parse_number (JSON_stringify (JNum m e) @ r) = Some (JNum m e, r)"
proof (cases "e = 0")
  case True
  have nd: "r = [] \<or> \<not> is_digit (hd r)" using assms by (auto simp: follow_def is_digit_def)
  have fr: "parse_fraction r = Some ([], r)"
    using assms by (intro parse_fraction_none) (auto simp: follow_def)
  have ex: "parse_exponent r = Some (0, r)"
    using assms by (intro parse_exponent_none) (auto simp: follow_def)
  show ?thesis using True parse_number_show_int [OF nd fr ex, of m] by simp
next
  case False
  have nd: "r = [] \<or> \<not> is_digit (hd r)" using assms by (auto simp: follow_def is_digit_def)
  have nd': "101 # show_int e @ r = [] \<or> \<not> is_digit (hd (101 # show_int e @ r))"
    by (simp add: is_digit_def)
  have fr: "parse_fraction (101 # show_int e @ r) = Some ([], 101 # show_int e @ r)"
    by (intro parse_fraction_none) simp
  show ?thesis using False parse_number_show_int [OF nd' fr parse_exponent_show [OF nd], of m]
    by simp
qed

subsection \<open>Strings\<close>

lemma hexval_hexdigit: "d < 16 \<Longrightarrow> hexval (hexdigit d) = Some d"
  by (auto simp: hexval_def hexdigit_def)

lemma hex4val_uescape:
  assumes "c < 65536"
  shows "hex4val (hexdigit (c div 4096 mod 16)) (hexdigit (c div 256 mod 16))
           (hexdigit (c div 16 mod 16)) (hexdigit (c mod 16)) = Some c"
proof -
  define q1 where "q1 = c div 16"
  define q2 where "q2 = q1 div 16"
  define q3 where "q3 = q2 div 16"
  have d256: "c div 256 = q2"
    unfolding q2_def q1_def by (simp add: div_mult2_eq [symmetric])
  have d4096: "c div 4096 = q3"
    unfolding q3_def q2_def q1_def by (simp add: div_mult2_eq [symmetric])
  have small: "q3 mod 16 = q3"
    using assms unfolding d4096 [symmetric] by simp
  define r0 where "r0 = c mod 16"
  define r1 where "r1 = q1 mod 16"
  define r2 where "r2 = q2 mod 16"
  have e1: "c = r0 + 16 * q1" unfolding q1_def r0_def by simp
  have e2: "q1 = r1 + 16 * q2" unfolding q2_def r1_def by simp
  have e3: "q2 = r2 + 16 * q3" unfolding q3_def r2_def by simp
  have "((q3 * 16 + r2) * 16 + r1) * 16 + r0 = c"
    using e1 e2 e3 by arith
  then have "((q3 mod 16 * 16 + q2 mod 16) * 16 + q1 mod 16) * 16 + c mod 16 = c"
    unfolding small r0_def r1_def r2_def .
  then show ?thesis
    unfolding d256 d4096 q1_def [symmetric]
    by (simp add: hex4val_def hexval_hexdigit)
qed

lemma parse_chars_plain:
  "c \<noteq> 34 \<Longrightarrow> c \<noteq> 92 \<Longrightarrow> 32 \<le> c \<Longrightarrow> parse_chars (c # r) = cons_unit c (parse_chars r)"
  by simp

lemma parse_chars_uescape:
  "c < 65536 \<Longrightarrow> parse_chars (uescape c @ r) = cons_unit c (parse_chars r)"
  using hex4val_uescape [of c] by (simp add: uescape_def)

lemma parse_chars_quote_unit: "parse_chars (quote_unit c @ r) = cons_unit c (parse_chars r)"
proof -
  consider "c = 8" | "c = 9" | "c = 10" | "c = 12" | "c = 13" | "c = 34" | "c = 92"
    | "c \<notin> {8, 9, 10, 12, 13, 34, 92}" "c < 32 \<or> is_high c \<or> is_low c"
    | "c \<notin> {8, 9, 10, 12, 13, 34, 92}" "\<not> (c < 32 \<or> is_high c \<or> is_low c)"
    by blast
  then show ?thesis
  proof cases
    case 8
    then have "c < 65536" by (auto simp: is_high_def is_low_def)
    with 8 show ?thesis by (simp add: quote_unit_def parse_chars_uescape)
  next
    case 9
    then show ?thesis by (simp add: quote_unit_def)
  qed (simp_all add: quote_unit_def unescape_def)
qed

lemma parse_chars_quote_units: "parse_chars (quote_units s @ 34 # r) = Some (s, r)"
proof (induction s rule: quote_units.induct)
  case 1
  show ?case by simp
next
  case (2 c)
  show ?case by (simp add: parse_chars_quote_unit cons_unit_def)
next
  case (3 c d cs)
  show ?case
  proof (cases "is_high c \<and> is_low d")
    case True
    then have eq: "quote_units (c # d # cs) = c # d # quote_units cs"
      by (simp only: quote_units.simps simp_thms if_True)
    have c: "c \<noteq> 34" "c \<noteq> 92" "32 \<le> c" and d: "d \<noteq> 34" "d \<noteq> 92" "32 \<le> d"
      using True by (simp_all add: is_high_def is_low_def)
    have "parse_chars (quote_units (c # d # cs) @ 34 # r)
        = cons_unit c (cons_unit d (parse_chars (quote_units cs @ 34 # r)))"
      by (simp only: eq append_Cons parse_chars_plain [OF c] parse_chars_plain [OF d])
    also have "\<dots> = Some (c # d # cs, r)"
      using 3(1) [OF True] by (simp only: cons_unit_def option.case prod.case)
    finally show ?thesis .
  next
    case False
    then have eq: "quote_units (c # d # cs) = quote_unit c @ quote_units (d # cs)"
      by (simp only: quote_units.simps simp_thms if_False)
    have "parse_chars (quote_units (c # d # cs) @ 34 # r)
        = cons_unit c (parse_chars (quote_units (d # cs) @ 34 # r))"
      by (simp only: eq append_assoc parse_chars_quote_unit)
    also have "\<dots> = Some (c # d # cs, r)"
      using 3(2) [OF False] by (simp only: cons_unit_def option.case prod.case)
    finally show ?thesis .
  qed
qed

lemma parse_chars_quote: "parse_chars (tl (quote s) @ r) = Some (s, r)"
  by (simp add: quote_def parse_chars_quote_units)

subsection \<open>Reading back what was written\<close>

lemma skip_ws_start: "\<not> is_ws c \<Longrightarrow> skip_ws (c # cs) = c # cs"
  by (simp add: skip_ws_def)

lemma update_fresh: "k \<notin> fst ` set al \<Longrightarrow> AList.update k v al = al @ [(k, v)]"
  by (induction al) auto

lemma define_props_acc:
  "distinct (map fst (acc @ kvs)) \<Longrightarrow>
   foldl (\<lambda>acc kv. AList.update (fst kv) (snd kv) acc) acc kvs = acc @ kvs"
proof (induction kvs arbitrary: acc)
  case Nil
  show ?case by simp
next
  case (Cons kv kvs)
  from Cons.prems have fresh: "fst kv \<notin> fst ` set acc" by auto
  have "AList.update (fst kv) (snd kv) acc = acc @ [kv]"
    using update_fresh [OF fresh, of "snd kv"] by simp
  moreover from Cons.prems have "distinct (map fst ((acc @ [kv]) @ kvs))" by simp
  ultimately show ?case using Cons.IH [of "acc @ [kv]"] by simp
qed

lemma define_props_distinct: "distinct (map fst kvs) \<Longrightarrow> define_props kvs = kvs"
  using define_props_acc [of "[]" kvs] by (simp add: define_props_def)

lemma show_int_start: "\<exists>c cs. show_int m = c # cs \<and> (c = 45 \<or> is_digit c)"
proof -
  obtain d ds where "digits (nat \<bar>m\<bar>) = d # ds"
    using digits_nonempty [of "nat \<bar>m\<bar>"] by (cases "digits (nat \<bar>m\<bar>)") auto
  moreover from this have "is_digit d" using digits_all_digit [of "nat \<bar>m\<bar>"] by simp
  ultimately show ?thesis by (cases "m < 0") (auto simp: show_int_def)
qed

lemma parse_value_number:
  "c = 45 \<or> is_digit c \<Longrightarrow> parse_value (c # cs) = parse_number (c # cs)"
  by (subst parse_value.simps) (auto simp: skip_ws_def is_ws_def is_digit_def)

lemma parse_value_string:
  "parse_value (34 # cs) =
     (case parse_chars cs of None \<Rightarrow> None | Some (str, r) \<Rightarrow> Some (JStr str, r))"
  by (subst parse_value.simps) (simp add: skip_ws_def is_ws_def)

lemma parse_value_null: "parse_value (js ''null'' @ r) = Some (JNull, r)"
  by (subst parse_value.simps) (simp add: skip_ws_def is_ws_def js_def parse_literal_def)

lemma parse_value_true: "parse_value (js ''true'' @ r) = Some (JBool True, r)"
  by (subst parse_value.simps) (simp add: skip_ws_def is_ws_def js_def parse_literal_def)

lemma parse_value_false: "parse_value (js ''false'' @ r) = Some (JBool False, r)"
  by (subst parse_value.simps) (simp add: skip_ws_def is_ws_def js_def parse_literal_def)

lemma parse_value_empty_array: "parse_value (91 # 93 # r) = Some (JArr [], r)"
  by (subst parse_value.simps) (simp add: skip_ws_def is_ws_def)

lemma parse_value_empty_object: "parse_value (123 # 125 # r) = Some (JObj [], r)"
  by (subst parse_value.simps) (simp add: skip_ws_def is_ws_def)

lemma parse_value_array:
  "\<not> is_ws d \<Longrightarrow> d \<noteq> 93 \<Longrightarrow>
   parse_value (91 # d # ds) =
     (case parse_elements (d # ds) of None \<Rightarrow> None | Some (vs, r) \<Rightarrow> Some (JArr vs, r))"
  by (subst parse_value.simps) (simp add: skip_ws_def is_ws_def)

lemma parse_value_object:
  "\<not> is_ws d \<Longrightarrow> d \<noteq> 125 \<Longrightarrow>
   parse_value (123 # d # ds) =
     (case parse_members (d # ds) of
        None \<Rightarrow> None
      | Some (kvs, r) \<Rightarrow> Some (JObj (define_props kvs), r))"
  by (subst parse_value.simps) (simp add: skip_ws_def is_ws_def)

lemma quote_start: "\<exists>cs. quote k = 34 # cs"
  by (simp add: quote_def)

lemma stringify_start: "\<exists>c cs. JSON_stringify v = c # cs \<and> \<not> is_ws c \<and> c \<noteq> 93 \<and> c \<noteq> 125"
proof (cases v)
  case (JNum m e)
  obtain c cs where "show_int m = c # cs" "c = 45 \<or> is_digit c"
    using show_int_start by blast
  with JNum show ?thesis by (auto simp: is_ws_def is_digit_def)
qed (auto simp: js_def is_ws_def quote_def)

lemma stringify_elements_start:
  assumes "xs \<noteq> []"
  shows "\<exists>c cs. stringify_elements xs = c # cs \<and> \<not> is_ws c \<and> c \<noteq> 93"
proof -
  obtain x ys where xs: "xs = x # ys" using assms by (cases xs) auto
  obtain c cs where c: "JSON_stringify x = c # cs" "\<not> is_ws c" "c \<noteq> 93"
    using stringify_start [of x] by blast
  show ?thesis using xs c by (cases ys) auto
qed

lemma stringify_members_start:
  assumes "kvs \<noteq> []"
  shows "\<exists>cs. stringify_members kvs = 34 # cs"
proof -
  obtain k v ps where kvs: "kvs = (k, v) # ps" using assms by (cases kvs) auto
  show ?thesis using kvs by (cases ps) (auto simp: quote_def)
qed

lemma follow_simps: "follow (44 # r)" "follow (93 # r)" "follow (125 # r)" "follow []"
  by (simp_all add: follow_def)

lemma parse_elements_last:
  assumes "parse_value s = Some (x, 93 # r)"
  shows "parse_elements s = Some ([x], r)"
  by (subst parse_elements.simps) (simp add: assms skip_ws_def is_ws_def)

lemma parse_elements_more:
  assumes "parse_value s = Some (x, 44 # cs)" and "length cs < length s"
    and "parse_elements cs = Some (xs, r)"
  shows "parse_elements s = Some (x # xs, r)"
  by (subst parse_elements.simps) (simp add: assms skip_ws_def is_ws_def)

lemma parse_members_last:
  assumes "parse_chars cs = Some (k, 58 # r2)" and "length r2 < Suc (length cs)"
    and "parse_value r2 = Some (v, 125 # r)"
  shows "parse_members (34 # cs) = Some ([(k, v)], r)"
  by (subst parse_members.simps) (simp add: assms skip_ws_def is_ws_def)

lemma parse_members_more:
  assumes "parse_chars cs = Some (k, 58 # r2)" and "length r2 < Suc (length cs)"
    and "parse_value r2 = Some (v, 44 # r4)" and "length r4 < Suc (length cs)"
    and "parse_members r4 = Some (kvs, r)"
  shows "parse_members (34 # cs) = Some ((k, v) # kvs, r)"
  by (subst parse_members.simps) (simp add: assms skip_ws_def is_ws_def)

theorem parse_stringify:
  "wf_json v \<longrightarrow> (\<forall>r. follow r \<longrightarrow> parse_value (JSON_stringify v @ r) = Some (v, r))"
  "wf_elements xs \<longrightarrow> xs \<noteq> [] \<longrightarrow>
     (\<forall>r. parse_elements (stringify_elements xs @ 93 # r) = Some (xs, r))"
  "wf_members kvs \<longrightarrow> kvs \<noteq> [] \<longrightarrow>
     (\<forall>r. parse_members (stringify_members kvs @ 125 # r) = Some (kvs, r))"
proof (induction v and xs and kvs rule: JSON_stringify_stringify_elements_stringify_members.induct)
  case 1
  show ?case by (simp add: parse_value_null)
next
  case (2 b)
  show ?case by (simp add: parse_value_true parse_value_false)
next
  case (3 m e)
  show ?case
  proof (intro impI allI)
    fix r assume r: "follow r"
    obtain c cs where c: "show_int m = c # cs" "c = 45 \<or> is_digit c"
      using show_int_start by blast
    have "parse_value (JSON_stringify (JNum m e) @ r) = parse_number (JSON_stringify (JNum m e) @ r)"
      using parse_value_number [OF c(2)] by (simp add: c(1))
    then show "parse_value (JSON_stringify (JNum m e) @ r) = Some (JNum m e, r)"
      by (simp only: parse_number_stringify [OF r])
  qed
next
  case (4 s)
  show ?case
    by (simp add: quote_def parse_value_string parse_chars_quote_units)
next
  case (5 xs)
  show ?case
  proof (intro impI allI)
    fix r assume wf: "wf_json (JArr xs)" and r: "follow r"
    show "parse_value (JSON_stringify (JArr xs) @ r) = Some (JArr xs, r)"
    proof (cases "xs = []")
      case True
      then show ?thesis by (simp add: parse_value_empty_array)
    next
      case False
      obtain d ds where d: "stringify_elements xs = d # ds" "\<not> is_ws d" "d \<noteq> 93"
        using stringify_elements_start [OF False] by blast
      have "parse_elements (stringify_elements xs @ 93 # r) = Some (xs, r)"
        using 5 wf False by simp
      then have "parse_elements (d # ds @ 93 # r) = Some (xs, r)" by (simp add: d(1))
      then show ?thesis
        by (simp add: d(1) parse_value_array [OF d(2,3)])
    qed
  qed
next
  case (6 kvs)
  show ?case
  proof (intro impI allI)
    fix r assume wf: "wf_json (JObj kvs)" and r: "follow r"
    show "parse_value (JSON_stringify (JObj kvs) @ r) = Some (JObj kvs, r)"
    proof (cases "kvs = []")
      case True
      then show ?thesis by (simp add: parse_value_empty_object define_props_def)
    next
      case False
      obtain ds where d: "stringify_members kvs = 34 # ds"
        using stringify_members_start [OF False] by blast
      have "parse_members (stringify_members kvs @ 125 # r) = Some (kvs, r)"
        using 6 wf False by simp
      then have "parse_members (34 # ds @ 125 # r) = Some (kvs, r)" by (simp add: d)
      moreover have "define_props kvs = kvs"
        using wf by (simp add: define_props_distinct)
      ultimately show ?thesis
        by (simp add: d parse_value_object is_ws_def)
    qed
  qed
next
  case 7
  show ?case by simp
next
  case (8 x)
  show ?case
  proof (intro impI allI)
    fix r assume wf: "wf_elements [x]"
    have "parse_value (JSON_stringify x @ 93 # r) = Some (x, 93 # r)"
      using 8 wf by (simp add: follow_simps)
    then show "parse_elements (stringify_elements [x] @ 93 # r) = Some ([x], r)"
      by (simp add: parse_elements_last)
  qed
next
  case (9 x y ys)
  show ?case
  proof (intro impI allI)
    fix r assume wf: "wf_elements (x # y # ys)"
    let ?rest = "stringify_elements (y # ys) @ 93 # r"
    have pv: "parse_value (JSON_stringify x @ 44 # ?rest) = Some (x, 44 # ?rest)"
      using 9(1) wf by (simp add: follow_simps)
    have pe: "parse_elements ?rest = Some (y # ys, r)"
      using 9(2) wf by simp
    have len: "length ?rest < length (JSON_stringify x @ 44 # ?rest)" by simp
    show "parse_elements (stringify_elements (x # y # ys) @ 93 # r) = Some (x # y # ys, r)"
      using parse_elements_more [OF pv len pe] by simp
  qed
next
  case 10
  show ?case by simp
next
  case (11 k v)
  show ?case
  proof (intro impI allI)
    fix r assume wf: "wf_members [(k, v)]"
    let ?r2 = "JSON_stringify v @ 125 # r"
    have pc: "parse_chars (quote_units k @ 34 # 58 # ?r2) = Some (k, 58 # ?r2)"
      by (rule parse_chars_quote_units)
    have len: "length ?r2 < Suc (length (quote_units k @ 34 # 58 # ?r2))" by simp
    have pv: "parse_value ?r2 = Some (v, 125 # r)"
      using 11 wf by (simp add: follow_simps)
    show "parse_members (stringify_members [(k, v)] @ 125 # r) = Some ([(k, v)], r)"
      using parse_members_last [OF pc len pv] by (simp add: quote_def)
  qed
next
  case (12 k v p ps)
  show ?case
  proof (intro impI allI)
    fix r assume wf: "wf_members ((k, v) # p # ps)"
    let ?r4 = "stringify_members (p # ps) @ 125 # r"
    let ?r2 = "JSON_stringify v @ 44 # ?r4"
    have pc: "parse_chars (quote_units k @ 34 # 58 # ?r2) = Some (k, 58 # ?r2)"
      by (rule parse_chars_quote_units)
    have len2: "length ?r2 < Suc (length (quote_units k @ 34 # 58 # ?r2))" by simp
    have pv: "parse_value ?r2 = Some (v, 44 # ?r4)"
      using 12(1) wf by (simp add: follow_simps)
    have len4: "length ?r4 < Suc (length (quote_units k @ 34 # 58 # ?r2))" by simp
    have pm: "parse_members ?r4 = Some (p # ps, r)"
      using 12(2) wf by simp
    show "parse_members (stringify_members ((k, v) # p # ps) @ 125 # r) = Some ((k, v) # p # ps, r)"
      using parse_members_more [OF pc len2 pv len4 pm] by (simp add: quote_def)
  qed
qed

theorem JSON_parse_stringify: "wf_json v \<Longrightarrow> JSON_parse (JSON_stringify v) = Inr v"
  using parse_stringify(1) [of v] by (simp add: JSON_parse_def follow_def skip_ws_def)

subsection \<open>Every reader consumes input\<close>

lemma skip_ws_length: "length (skip_ws s) \<le> length s"
  by (simp add: skip_ws_def length_dropWhile_le)

lemma skip_ws_Cons_length: "skip_ws s = c # cs \<Longrightarrow> length cs < length s"
  using skip_ws_length [of s] by simp

lemma cons_unit_Some:
  "cons_unit u res = Some (str, r) \<Longrightarrow> \<exists>str'. res = Some (str', r)"
  by (cases res) (auto simp: cons_unit_def)

lemma parse_chars_shorter: "parse_chars s = Some (str, r) \<Longrightarrow> length r < length s"
proof (induction s arbitrary: str r rule: length_induct)
  case (1 s)
  have IH: "length r < length s'"
    if "parse_chars s' = Some (str, r)" and "length s' < length s" for s' str r
    using that "1.IH" by blast
  from "1.prems" show ?case
    by (cases s)
       (auto split: if_splits list.splits option.splits dest!: cons_unit_Some dest!: IH)
qed

lemma parse_literal_shorter:
  "parse_literal w v s = Some (x, r) \<Longrightarrow> w \<noteq> [] \<Longrightarrow> length r < length s"
  by (cases s) (auto simp: parse_literal_def split: if_splits)

lemma parse_fraction_shorter: "parse_fraction s = Some (fp, r) \<Longrightarrow> length r \<le> length s"
  using length_dropWhile_le [of is_digit "tl s"]
  by (cases s) (auto simp: parse_fraction_def split: if_splits)

lemma parse_exponent_shorter: "parse_exponent s = Some (e, r) \<Longrightarrow> length r \<le> length s"
proof (cases s)
  case Nil
  assume "parse_exponent s = Some (e, r)"
  with Nil show ?thesis by (simp add: parse_exponent_def)
next
  case (Cons c cs)
  assume p: "parse_exponent s = Some (e, r)"
  have "length (dropWhile is_digit cs) \<le> length cs" "length (dropWhile is_digit (tl cs)) \<le> length cs"
    using length_dropWhile_le [of is_digit cs] length_dropWhile_le [of is_digit "tl cs"]
    by simp_all
  with p Cons show ?thesis
    by (auto simp: parse_exponent_def Let_def split: if_splits)
qed

lemma takeWhile_nonempty_drop: "takeWhile P s \<noteq> [] \<Longrightarrow> length (dropWhile P s) < length s"
  by (cases s) (auto simp: less_Suc_eq_le length_dropWhile_le split: if_splits)

lemma parse_number_shorter:
  assumes "parse_number s = Some (v, r)"
  shows "length r < length s"
proof -
  define s1 where "s1 = (if s \<noteq> [] \<and> hd s = 45 then tl s else s)"
  have s1: "length s1 \<le> length s" by (simp add: s1_def)
  from assms have ne: "takeWhile is_digit s1 \<noteq> []"
    by (auto simp: parse_number_def Let_def s1_def split: if_splits)
  from assms obtain fp s3 e where
    fr: "parse_fraction (dropWhile is_digit s1) = Some (fp, s3)" and ex: "parse_exponent s3 = Some (e, r)"
    by (auto simp: parse_number_def Let_def s1_def split: if_splits option.splits)
  show ?thesis
    using takeWhile_nonempty_drop [OF ne] parse_fraction_shorter [OF fr]
      parse_exponent_shorter [OF ex] s1
    by simp
qed

lemma parse_value_cases:
  assumes "parse_value s = Some (v, r)"
  shows "\<exists>c cs. skip_ws s = c # cs \<and>
           ((c = 123 \<and> (\<exists>d ds. skip_ws cs = d # ds \<and>
                 ((d = 125 \<and> r = ds) \<or>
                  (d \<noteq> 125 \<and> (\<exists>kvs. parse_members (d # ds) = Some (kvs, r))))))
          \<or> (c \<noteq> 123 \<and> c = 91 \<and> (\<exists>d ds. skip_ws cs = d # ds \<and>
                 ((d = 93 \<and> r = ds) \<or>
                  (d \<noteq> 93 \<and> (\<exists>vs. parse_elements (d # ds) = Some (vs, r))))))
          \<or> length r < length (c # cs))"
proof (cases "skip_ws s")
  case Nil
  with assms show ?thesis by (subst (asm) parse_value.simps) simp
next
  case (Cons c cs)
  consider "c = 123" | "c \<noteq> 123" "c = 91" | "c \<noteq> 123" "c \<noteq> 91" by blast
  then show ?thesis
  proof cases
    case 1
    with assms Cons show ?thesis
      by (subst (asm) parse_value.simps) (auto split: list.splits if_splits option.splits)
  next
    case 2
    with assms Cons show ?thesis
      by (subst (asm) parse_value.simps) (auto split: list.splits if_splits option.splits)
  next
    case 3
    have lit: "js ''true'' \<noteq> []" "js ''false'' \<noteq> []" "js ''null'' \<noteq> []"
      by (simp_all add: js_def)
    from assms Cons 3 have "length r < length (c # cs)"
      by (subst (asm) parse_value.simps)
         (auto split: if_splits option.splits
           dest!: parse_chars_shorter parse_literal_shorter [OF _ lit(1)]
             parse_literal_shorter [OF _ lit(2)] parse_literal_shorter [OF _ lit(3)]
             parse_number_shorter)
    with Cons show ?thesis by simp
  qed
qed

lemma parse_value_shorter:
  "parse_value s = Some (v, r) \<Longrightarrow> length r < length s"
  "parse_elements s' = Some (vs, r') \<Longrightarrow> length r' < length s'"
  "parse_members s'' = Some (kvs, r'') \<Longrightarrow> length r'' < length s''"
proof (induction s and s' and s'' arbitrary: v r and vs r' and kvs r''
    rule: parse_value_parse_elements_parse_members.induct)
  case (1 s)
  from parse_value_cases [OF "1.prems"] obtain c cs where
    sk: "skip_ws s = c # cs" and
    alt: "(c = 123 \<and> (\<exists>d ds. skip_ws cs = d # ds \<and>
                 ((d = 125 \<and> r = ds) \<or>
                  (d \<noteq> 125 \<and> (\<exists>kvs. parse_members (d # ds) = Some (kvs, r))))))
          \<or> (c \<noteq> 123 \<and> c = 91 \<and> (\<exists>d ds. skip_ws cs = d # ds \<and>
                 ((d = 93 \<and> r = ds) \<or>
                  (d \<noteq> 93 \<and> (\<exists>vs. parse_elements (d # ds) = Some (vs, r))))))
          \<or> length r < length (c # cs)"
    by blast
  have len: "length (c # cs) \<le> length s" using skip_ws_length [of s] sk by simp
  from alt show ?case
  proof (elim disjE conjE exE)
    fix d ds assume "c = 123" "skip_ws cs = d # ds" "d = 125" "r = ds"
    then show ?thesis using len skip_ws_length [of cs] by simp
  next
    fix d ds kvs
    assume a: "c = 123" "skip_ws cs = d # ds" "d \<noteq> 125" "parse_members (d # ds) = Some (kvs, r)"
    from "1.IH"(1) [OF sk a] have "length r < length (d # ds)" .
    then show ?thesis using len skip_ws_length [of cs] a(2) by simp
  next
    fix d ds assume "c = 91" "skip_ws cs = d # ds" "d = 93" "r = ds"
    then show ?thesis using len skip_ws_length [of cs] by simp
  next
    fix d ds vs
    assume a: "c \<noteq> 123" "c = 91" "skip_ws cs = d # ds" "d \<noteq> 93" "parse_elements (d # ds) = Some (vs, r)"
    from "1.IH"(2) [OF sk a] have "length r < length (d # ds)" .
    then show ?thesis using len skip_ws_length [of cs] a(3) by simp
  next
    assume "length r < length (c # cs)"
    then show ?thesis using len by simp
  qed
next
  case (2 s)
  from "2.prems" obtain v r where pv: "parse_value s = Some (v, r)"
    by (subst (asm) parse_elements.simps) (auto split: option.splits)
  from "2.IH"(1) [OF pv] have r: "length r < length s" .
  from "2.prems" pv obtain c cs where sk: "skip_ws r = c # cs"
    by (subst (asm) parse_elements.simps) (auto split: list.splits)
  have cs: "length cs < length s" using skip_ws_Cons_length [OF sk] r by simp
  show ?case
  proof (cases "c = 93")
    case True
    with "2.prems" pv sk have "r' = cs"
      by (subst (asm) parse_elements.simps) simp
    with cs show ?thesis by simp
  next
    case False
    with "2.prems" pv sk obtain ws where c: "c = 44" and pe: "parse_elements cs = Some (ws, r')"
      by (subst (asm) parse_elements.simps) (auto split: if_splits option.splits)
    from "2.IH"(2) [OF pv refl sk False _ pe] c cs have "length r' < length cs" by simp
    with cs show ?thesis by simp
  qed
next
  case (3 s)
  from "3.prems" obtain c cs where sk: "skip_ws s = c # cs"
    by (subst (asm) parse_members.simps) (auto split: list.splits)
  from "3.prems" sk have c: "c = 34"
    by (subst (asm) parse_members.simps) (auto split: if_splits)
  from "3.prems" sk c obtain k r1 where pc: "parse_chars cs = Some (k, r1)"
    by (subst (asm) parse_members.simps) (auto split: option.splits)
  from "3.prems" sk c pc obtain c1 r2 where sk1: "skip_ws r1 = c1 # r2"
    by (subst (asm) parse_members.simps) (auto split: list.splits)
  have r2: "length r2 < length s"
    using skip_ws_Cons_length [OF sk1] parse_chars_shorter [OF pc] skip_ws_Cons_length [OF sk]
    by simp
  from "3.prems" sk c pc sk1 r2 have c1: "c1 = 58"
    by (subst (asm) parse_members.simps) (auto split: if_splits)
  from "3.prems" sk c pc sk1 r2 c1 obtain v r3 where pv: "parse_value r2 = Some (v, r3)"
    by (subst (asm) parse_members.simps) (auto split: option.splits)
  have g: "c1 = 58 \<and> length r2 < length s" using c1 r2 by simp
  have cne: "\<not> c \<noteq> 34" using c by simp
  from "3.IH"(1) [OF sk cne pc refl sk1 g pv] have r3: "length r3 < length r2" .
  from "3.prems" sk c pc sk1 r2 c1 pv obtain c3 r4 where sk3: "skip_ws r3 = c3 # r4"
    by (subst (asm) parse_members.simps) (auto split: list.splits)
  have r4: "length r4 < length s" using skip_ws_Cons_length [OF sk3] r3 r2 by simp
  show ?case
  proof (cases "c3 = 125")
    case True
    with "3.prems" sk c pc sk1 r2 c1 pv sk3 have "r'' = r4"
      by (subst (asm) parse_members.simps) simp
    with r4 show ?thesis by simp
  next
    case False
    with "3.prems" sk c pc sk1 r2 c1 pv sk3 obtain ps where
      c3: "c3 = 44" and pm: "parse_members r4 = Some (ps, r'')"
      by (subst (asm) parse_members.simps) (auto split: if_splits option.splits)
    have g3: "c3 = 44 \<and> length r4 < length s" using c3 r4 by simp
    from "3.IH"(2) [OF sk cne pc refl sk1 g pv refl sk3 False g3 pm] have "length r'' < length r4" .
    with r4 show ?thesis by simp
  qed
qed

subsection \<open>The guards of the readers are redundant\<close>

text \<open>
  Since every reader consumes input, the comparisons of lengths in \<open>parse_elements\<close> and
  \<open>parse_members\<close> always succeed: both functions satisfy their equations without them.
\<close>

lemma parse_elements_unguarded:
  "parse_elements s =
     (case parse_value s of
        None \<Rightarrow> None
      | Some (v, r) \<Rightarrow>
          (case skip_ws r of
             [] \<Rightarrow> None
           | c # cs \<Rightarrow>
               if c = 93 then Some ([v], cs)
               else if c = 44 then
                 (case parse_elements cs of
                    None \<Rightarrow> None
                  | Some (vs, r') \<Rightarrow> Some (v # vs, r'))
               else None))"
proof (cases "parse_value s")
  case None
  then show ?thesis by (subst parse_elements.simps) simp
next
  case (Some vr)
  obtain v r where vr: "vr = (v, r)" by (cases vr)
  have r: "length r < length s" using parse_value_shorter(1) Some vr by blast
  show ?thesis
  proof (cases "skip_ws r")
    case Nil
    with Some vr show ?thesis by (subst parse_elements.simps) simp
  next
    case (Cons c cs)
    have "length cs < length s" using skip_ws_Cons_length [OF Cons] r by simp
    with Some vr Cons show ?thesis by (subst parse_elements.simps) simp
  qed
qed

lemma parse_members_unguarded:
  "parse_members s =
     (case skip_ws s of
        [] \<Rightarrow> None
      | c # cs \<Rightarrow>
          if c \<noteq> 34 then None
          else
            (case parse_chars cs of
               None \<Rightarrow> None
             | Some (k, r1) \<Rightarrow>
                 (case skip_ws r1 of
                    [] \<Rightarrow> None
                  | c1 # r2 \<Rightarrow>
                      if c1 = 58 then
                        (case parse_value r2 of
                           None \<Rightarrow> None
                         | Some (v, r3) \<Rightarrow>
                             (case skip_ws r3 of
                                [] \<Rightarrow> None
                              | c3 # r4 \<Rightarrow>
                                  if c3 = 125 then Some ([(k, v)], r4)
                                  else if c3 = 44 then
                                    (case parse_members r4 of
                                       None \<Rightarrow> None
                                     | Some (kvs, r5) \<Rightarrow> Some ((k, v) # kvs, r5))
                                  else None))
                      else None)))"
proof (cases "skip_ws s")
  case Nil
  then show ?thesis by (subst parse_members.simps) simp
next
  case sk: (Cons c cs)
  show ?thesis
  proof (cases "parse_chars cs")
    case None
    with sk show ?thesis by (subst parse_members.simps) simp
  next
    case (Some kr)
    obtain k r1 where kr: "kr = (k, r1)" by (cases kr)
    have pc: "parse_chars cs = Some (k, r1)" using Some kr by simp
    show ?thesis
    proof (cases "skip_ws r1")
      case Nil
      with sk pc show ?thesis by (subst parse_members.simps) simp
    next
      case sk1: (Cons c1 r2)
      have r2: "length r2 < length s"
        using skip_ws_Cons_length [OF sk1] parse_chars_shorter [OF pc] skip_ws_Cons_length [OF sk]
        by simp
      show ?thesis
      proof (cases "parse_value r2")
        case None
        with sk pc sk1 show ?thesis by (subst parse_members.simps) simp
      next
        case (Some vr)
        obtain v r3 where vr: "vr = (v, r3)" by (cases vr)
        have pv: "parse_value r2 = Some (v, r3)" using Some vr by simp
        have r3: "length r3 < length r2" using parse_value_shorter(1) [OF pv] .
        show ?thesis
        proof (cases "skip_ws r3")
          case Nil
          with sk pc sk1 pv show ?thesis by (subst parse_members.simps) simp
        next
          case sk3: (Cons c3 r4)
          have "length r4 < length s" using skip_ws_Cons_length [OF sk3] r3 r2 by simp
          with sk pc sk1 pv sk3 r2 show ?thesis by (subst parse_members.simps) simp
        qed
      qed
    qed
  qed
qed

subsection \<open>Concrete texts\<close>

lemma parse_durations_0:
  "JSON_parse (js ''{\"durations\":0}'') = Inr (JObj [(js ''durations'', JNum 0 0)])"
  by code_simp

lemma parse_durations_a:
  "JSON_parse (js ''{\"durations\":{\"a\":1}}'')
     = Inr (JObj [(js ''durations'', JObj [(js ''a'', JNum 1 0)])])"
  by code_simp

lemma parse_hi_blob:
  "JSON_parse hi_blob
   = Inr (JObj [(js ''messages'', messages_json [hi_message]), (js ''durations'', JObj [])])"
  by code_simp

lemma parse_durations_blob:
  "JSON_parse durations_blob
   = Inr (JObj [(js ''messages'', JArr []), (js ''durations'', JObj [(js ''a'', JNum 1 0)])])"
  by code_simp

section \<open>Facts about saving and loading\<close>

lemma JSON_parse_empty: "JSON_parse [] = Inl SyntaxError"
  by (simp add: JSON_parse_def parse_value.simps skip_ws_def)

lemma digits_key: "k \<in> set (map digits is) \<Longrightarrow> list_all is_digit k"
  using digits_all_digit by auto

lemma index_keys_None:
  assumes "\<not> list_all is_digit k"
  shows "map_of (zip (map digits is) vs) k = None"
proof -
  have "k \<notin> set (map digits is)" using assms digits_key by blast
  then have "k \<notin> fst ` set (zip (map digits is) vs)"
    by (metis (no_types, lifting) imageE in_set_zipE prod.collapse)
  then show ?thesis by (simp add: map_of_eq_None_iff)
qed

lemma get_prop_non_object:
  assumes "\<not> is_object v" and "v \<noteq> JNull" and "\<not> list_all is_digit k" and "k \<noteq> js ''length''"
  shows "get_prop v k = Inr None"
  using assms
  by (cases v) (simp_all add: get_prop_def own_props_def is_object_def index_keys_None)

lemma messages_key: "\<not> list_all is_digit (js ''messages'')" "js ''messages'' \<noteq> js ''length''"
  by (simp_all add: js_def is_digit_def)

lemma durations_key: "\<not> list_all is_digit (js ''durations'')" "js ''durations'' \<noteq> js ''length''"
  by (simp_all add: js_def is_digit_def)

lemma load_non_object:
  assumes "getItem (localStorage e) STORAGE_KEY = Inr (Some s)" and "JSON_parse s = Inr v"
    and "\<not> is_object v"
  shows "loadMessagesFromStorage e = empty_data"
proof (cases "v = JNull")
  case True
  with assms show ?thesis
    by (simp add: loadMessagesFromStorage_def get_prop_def)
next
  case False
  have "get_prop v (js ''messages'') = Inr None" "get_prop v (js ''durations'') = Inr None"
    using assms(3) False
    by (simp_all add: get_prop_non_object messages_key durations_key)
  with assms show ?thesis
    by (simp add: loadMessagesFromStorage_def or_else_def empty_data_def)
qed

lemma load_object:
  assumes "window_defined e" and "getItem (localStorage e) STORAGE_KEY = Inr (Some s)"
    and "JSON_parse s = Inr (JObj kvs)"
  shows "loadMessagesFromStorage e =
           \<lparr>messages = or_else (map_of kvs (js ''messages'')) (JArr []),
            durations = or_else (map_of kvs (js ''durations'')) (JObj [])\<rparr>"
proof -
  have "s \<noteq> []" using assms(3) JSON_parse_empty by auto
  with assms show ?thesis
    by (simp add: loadMessagesFromStorage_def get_prop_def own_props_def)
qed

lemma or_else_truthy: "\<not> falsy v \<Longrightarrow> or_else (Some v) d = v"
  by (simp add: or_else_def)

lemma or_else_falsy: "falsy v \<Longrightarrow> or_else (Some v) d = d"
  by (simp add: or_else_def)

lemma or_else_None: "or_else None d = d"
  by (simp add: or_else_def)

lemma stringify_object_nonempty: "JSON_stringify (JObj kvs) \<noteq> []"
  by simp

lemma save_working:
  assumes "window_defined e" and "\<not> setItem_throws (localStorage e)"
  shows "saveMessagesToStorage e m d =
           e\<lparr>localStorage := (localStorage e)\<lparr>items :=
              AList.update STORAGE_KEY
                (JSON_stringify (JObj [(js ''messages'', m), (js ''durations'', d)]))
                (items (localStorage e))\<rparr>\<rparr>"
  using assms by (simp add: saveMessagesToStorage_def setItem_def)

lemma save_failing:
  "\<not> window_defined e \<or> setItem_throws (localStorage e) \<Longrightarrow> saveMessagesToStorage e m d = e"
  by (auto simp: saveMessagesToStorage_def setItem_def)

lemma save_flags:
  "window_defined (saveMessagesToStorage e m d) = window_defined e"
  "getItem_throws (localStorage (saveMessagesToStorage e m d)) = getItem_throws (localStorage e)"
  "setItem_throws (localStorage (saveMessagesToStorage e m d)) = setItem_throws (localStorage e)"
  by (simp_all add: saveMessagesToStorage_def setItem_def)

lemma keys_distinct: "js ''messages'' \<noteq> js ''durations''"
  by (simp add: js_def)

lemma load_after_save:
  assumes "window_defined e" and "\<not> getItem_throws (localStorage e)"
    and "\<not> setItem_throws (localStorage e)" and "wf_json m" and "wf_json d"
  shows "loadMessagesFromStorage (saveMessagesToStorage e m d) =
           \<lparr>messages = or_else (Some m) (JArr []), durations = or_else (Some d) (JObj [])\<rparr>"
proof -
  let ?text = "JSON_stringify (JObj [(js ''messages'', m), (js ''durations'', d)])"
  let ?e = "saveMessagesToStorage e m d"
  have wf: "wf_json (JObj [(js ''messages'', m), (js ''durations'', d)])"
    using assms(4,5) keys_distinct by simp
  have p: "JSON_parse ?text = Inr (JObj [(js ''messages'', m), (js ''durations'', d)])"
    by (rule JSON_parse_stringify [OF wf])
  have w: "window_defined ?e" using assms(1) by (simp add: save_flags)
  have g: "getItem (localStorage ?e) STORAGE_KEY = Inr (Some ?text)"
    using assms(1,2,3) by (simp add: save_working getItem_def update_conv')
  show ?thesis
    using load_object [OF w g p] keys_distinct by simp
qed

lemma load_unavailable:
  "\<not> window_defined e \<or> getItem_throws (localStorage e) \<Longrightarrow> loadMessagesFromStorage e = empty_data"
  by (auto simp: loadMessagesFromStorage_def getItem_def)

lemma load_unavailable_env: "loadMessagesFromStorage e = empty_data" if "\<not> window_defined e"
  using that by (simp add: loadMessagesFromStorage_def)

lemma falsy_array: "\<not> falsy (JArr xs)" and falsy_object: "\<not> falsy (JObj kvs)"
  by (simp_all add: falsy_def)

lemma load_hi_blob:
  assumes "window_defined e" and "getItem (localStorage e) STORAGE_KEY = Inr (Some hi_blob)"
  shows "loadMessagesFromStorage e = \<lparr>messages = messages_json [hi_message], durations = JObj []\<rparr>"
  using load_object [OF assms parse_hi_blob] keys_distinct
  by (simp add: or_else_def falsy_def messages_json_def)

subsection \<open>Typed records are well-formed values, and their encoding is injective\<close>

lemma wf_parts: "wf_elements (map part_json ps)"
  by (induction ps) (auto simp: part_json_def js_def split: part.splits)

lemma wf_message: "wf_json (message_json m)"
  by (simp add: message_json_def role_json_def wf_parts js_def)

lemma wf_messages: "wf_json (messages_json ms)"
  unfolding messages_json_def by (induction ms) (simp_all add: wf_message)

lemma wf_durations_members: "wf_members (map (\<lambda>kd. (fst kd, JNum (int (snd kd)) 0)) ds)"
  by (induction ds) simp_all

lemma wf_durations: "distinct (map fst ds) \<Longrightarrow> wf_json (durations_json ds)"
  by (simp add: durations_json_def wf_durations_members comp_def)

lemma role_json_inj: "role_json r = role_json r' \<Longrightarrow> r = r'"
  by (cases r; cases r') (simp_all add: role_json_def js_def)

lemma part_json_inj: "part_json p = part_json p' \<Longrightarrow> p = p'"
  by (cases p; cases p') (simp add: part_json_def)

lemma message_json_inj: "message_json m = message_json m' \<Longrightarrow> m = m'"
proof -
  assume eq: "message_json m = message_json m'"
  have "inj part_json" by (rule injI) (rule part_json_inj)
  with eq have "message_parts m = message_parts m'"
    by (simp add: message_json_def inj_map_eq_map)
  moreover from eq have "message_id m = message_id m'" "message_role m = message_role m'"
    by (simp_all add: message_json_def role_json_inj)
  ultimately show "m = m'" by simp
qed

lemma messages_json_inj: "messages_json ms = messages_json ms' \<Longrightarrow> ms = ms'"
proof -
  assume eq: "messages_json ms = messages_json ms'"
  have "inj message_json" by (rule injI) (rule message_json_inj)
  with eq show "ms = ms'" by (simp add: messages_json_def inj_map_eq_map)
qed

lemma durations_json_inj: "durations_json ds = durations_json ds' \<Longrightarrow> ds = ds'"
proof -
  assume eq: "durations_json ds = durations_json ds'"
  have "inj (\<lambda>kd::jsstring \<times> nat. (fst kd, JNum (int (snd kd)) 0))"
    by (rule injI) (auto simp: prod_eq_iff)
  with eq show "ds = ds'" by (simp add: durations_json_def inj_map_eq_map)
qed

section \<open>Facts about the component\<close>

subsection \<open>The welcome flag\<close>

lemma first_render_stored:
  "(if window_defined e then loadMessagesFromStorage e else empty_data) = loadMessagesFromStorage e"
  by (simp add: loadMessagesFromStorage_def)

lemma length_is_0_array: "length_is_0 (JArr xs) = (xs = [])"
  by (simp add: length_is_0_def get_prop_def)

lemma welcome_effect_idle: "\<not> welcome_due c s \<Longrightarrow> welcome_effect wm now c s = s"
  by (simp add: welcome_effect_def)

lemma welcome_effect_fires:
  "welcome_due c s \<Longrightarrow>
   welcome_effect wm now c s =
     s\<lparr>messages := JArr [welcomeMessage wm now],
       env := saveMessagesToStorage (env s) (JArr [welcomeMessage wm now]) (JObj []),
       welcomeShownRef := True\<rparr>"
  by (simp add: welcome_effect_def)

lemma flag_blocks: "welcomeShownRef s \<Longrightarrow> \<not> welcome_due c s"
  by (simp add: welcome_due_def)

lemma step_flag:
  "welcomeShownRef (snd cs) \<Longrightarrow> welcomeShownRef (snd (step wm ev cs))"
  by (cases cs; cases ev)
     (simp_all add: mount_effect_def save_effect_def welcome_effect_def handleDurationChange_def
       clearChat_def)

lemma run_flag: "welcomeShownRef (snd cs) \<Longrightarrow> welcomeShownRef (snd (run wm evs cs))"
  by (induction evs arbitrary: cs) (simp_all add: step_flag)

lemma injections_flag: "welcomeShownRef (snd cs) \<Longrightarrow> injections wm evs cs = 0"
proof (induction evs arbitrary: cs)
  case Nil
  show ?case by simp
next
  case (Cons ev evs)
  have "injections wm evs (step wm ev cs) = 0"
    using Cons.IH [OF step_flag [OF Cons.prems]] .
  with Cons.prems show ?case
    by (cases ev) (simp_all add: flag_blocks)
qed

lemma step_fired_flag:
  "welcome_due (fst cs) (snd cs) \<Longrightarrow> welcomeShownRef (snd (step wm (WelcomeEffect now) cs))"
  by (cases cs) (simp add: welcome_effect_def)

lemma injections_le_1: "injections wm evs cs \<le> 1"
proof (induction evs arbitrary: cs)
  case Nil
  show ?case by simp
next
  case (Cons ev evs)
  show ?case
  proof (cases "\<exists>now. ev = WelcomeEffect now \<and> welcome_due (fst cs) (snd cs)")
    case True
    then obtain now where ev: "ev = WelcomeEffect now" and due: "welcome_due (fst cs) (snd cs)"
      by blast
    have "injections wm evs (step wm ev cs) = 0"
      unfolding ev by (rule injections_flag [OF step_fired_flag [OF due]])
    then show ?thesis using ev due by simp
  next
    case False
    then have "injections wm (ev # evs) cs = injections wm evs (step wm ev cs)"
      by (cases ev) auto
    with Cons.IH show ?thesis by simp
  qed
qed

lemma injections_append:
  "injections wm (evs @ evs') cs = injections wm evs cs + injections wm evs' (run wm evs cs)"
  by (induction evs arbitrary: cs) simp_all

lemma fired_sets_flag: "0 < injections wm evs cs \<Longrightarrow> welcomeShownRef (snd (run wm evs cs))"
proof (induction evs arbitrary: cs)
  case Nil
  then show ?case by simp
next
  case (Cons ev evs)
  show ?case
  proof (cases "\<exists>now. ev = WelcomeEffect now \<and> welcome_due (fst cs) (snd cs)")
    case True
    then obtain now where ev: "ev = WelcomeEffect now" and due: "welcome_due (fst cs) (snd cs)"
      by blast
    show ?thesis
      unfolding ev using run_flag [OF step_fired_flag [OF due]] by simp
  next
    case False
    then have "injections wm (ev # evs) cs = injections wm evs (step wm ev cs)"
      by (cases ev) auto
    with Cons show ?thesis by simp
  qed
qed

subsection \<open>The initial transcript never changes\<close>

lemma step_initialMessages:
  "initialMessages (snd (step wm ev cs)) = initialMessages (snd cs)"
  by (cases cs; cases ev)
     (simp_all add: mount_effect_def save_effect_def welcome_effect_def handleDurationChange_def
       clearChat_def)

lemma step_closure_initialMessages:
  "initialMessages (fst cs) = initialMessages (snd cs) \<Longrightarrow>
   initialMessages (fst (step wm ev cs)) = initialMessages (snd cs)"
  by (cases cs; cases ev) (simp_all add: Chat_render_def)

lemma run_initialMessages:
  "initialMessages (fst cs) = initialMessages (snd cs) \<Longrightarrow>
   initialMessages (snd (run wm evs cs)) = initialMessages (snd cs)
   \<and> initialMessages (fst (run wm evs cs)) = initialMessages (snd cs)"
proof (induction evs arbitrary: cs)
  case Nil
  then show ?case by simp
next
  case (Cons ev evs)
  have "initialMessages (fst (step wm ev cs)) = initialMessages (snd (step wm ev cs))"
    using step_closure_initialMessages [OF Cons.prems] step_initialMessages by simp
  from Cons.IH [OF this] show ?case by (simp add: step_initialMessages)
qed

lemma not_due_nonempty: "initialMessages c = JArr (x # xs) \<Longrightarrow> \<not> welcome_due c s"
  by (simp add: welcome_due_def length_is_0_array)

lemma injections_nonempty:
  assumes "initialMessages (fst cs) = JArr (x # xs)" and "initialMessages (snd cs) = JArr (x # xs)"
  shows "injections wm evs cs = 0"
  using assms
proof (induction evs arbitrary: cs)
  case Nil
  show ?case by simp
next
  case (Cons ev evs)
  have c: "initialMessages (fst cs) = initialMessages (snd cs)" using Cons.prems by simp
  have "injections wm evs (step wm ev cs) = 0"
    using Cons.IH [of "step wm ev cs"] step_closure_initialMessages [OF c, of wm ev]
      step_initialMessages [of wm ev cs] Cons.prems
    by simp
  then show ?case using not_due_nonempty [OF Cons.prems(1)] by (cases ev) simp_all
qed

lemma Chat_first_render_eq:
  "Chat_first_render e =
     \<lparr>messages = messages (loadMessagesFromStorage e), durations = JObj [], isClient = False,
      initialMessages = messages (loadMessagesFromStorage e), welcomeShownRef = False,
      env = e, toasts = []\<rparr>"
  by (simp add: Chat_first_render_def Let_def first_render_stored)

lemma Chat_render_eq:
  "Chat_render s =
     \<lparr>messages = messages s, durations = durations s, isClient = isClient s,
      initialMessages = initialMessages s, stored = loadMessagesFromStorage (env s)\<rparr>"
  by (simp add: Chat_render_def first_render_stored)

lemma first_mount_initialMessages:
  "initialMessages (fst (first_mount e)) = messages (loadMessagesFromStorage e)"
  "initialMessages (snd (first_mount e)) = messages (loadMessagesFromStorage e)"
  by (simp_all add: first_mount_def Chat_render_eq Chat_first_render_eq)

lemma welcomeMessage_not_empty: "\<not> length_is_0 (JArr [welcomeMessage wm now])"
  by (simp add: length_is_0_array)

subsection \<open>The mount schedule, commit by commit\<close>

lemma first_commit_eq:
  "first_commit wm now (Chat_render (Chat_first_render e)) (Chat_first_render e) =
     \<lparr>messages = messages (loadMessagesFromStorage e),
      durations = durations (loadMessagesFromStorage e), isClient = True,
      initialMessages = messages (loadMessagesFromStorage e), welcomeShownRef = False,
      env = e, toasts = []\<rparr>"
  by (simp add: first_commit_def Chat_render_eq Chat_first_render_eq mount_effect_def
      save_effect_def welcome_effect_def welcome_due_def)

lemma second_commit_due:
  assumes "length_is_0 m0"
  shows "next_commit wm now
       \<lparr>messages = m0, durations = JObj [], isClient = False, initialMessages = m0, stored = st1\<rparr>
       \<lparr>messages = m0, durations = d0, isClient = True, initialMessages = m0, stored = st2\<rparr>
       \<lparr>messages = m0, durations = d0, isClient = True, initialMessages = m0,
        welcomeShownRef = False, env = e, toasts = []\<rparr>
     = \<lparr>messages = JArr [welcomeMessage wm now], durations = d0, isClient = True,
        initialMessages = m0, welcomeShownRef = True,
        env = saveMessagesToStorage (saveMessagesToStorage e m0 d0)
                (JArr [welcomeMessage wm now]) (JObj []),
        toasts = []\<rparr>"
  using assms
  by (simp add: next_commit_def save_effect_def welcome_effect_def welcome_due_def)

lemma second_commit_not_due:
  assumes "\<not> length_is_0 m0"
  shows "next_commit wm now
       \<lparr>messages = m0, durations = JObj [], isClient = False, initialMessages = m0, stored = st1\<rparr>
       \<lparr>messages = m0, durations = d0, isClient = True, initialMessages = m0, stored = st2\<rparr>
       \<lparr>messages = m0, durations = d0, isClient = True, initialMessages = m0,
        welcomeShownRef = False, env = e, toasts = []\<rparr>
     = \<lparr>messages = m0, durations = d0, isClient = True,
        initialMessages = m0, welcomeShownRef = False,
        env = saveMessagesToStorage e m0 d0, toasts = []\<rparr>"
  using assms
  by (simp add: next_commit_def save_effect_def welcome_effect_def welcome_due_def)

lemma third_commit_changed:
  assumes "m \<noteq> m0"
  shows "next_commit wm now
       \<lparr>messages = m0, durations = d0, isClient = True, initialMessages = m0, stored = st2\<rparr>
       \<lparr>messages = m, durations = d0, isClient = True, initialMessages = m0, stored = st3\<rparr>
       \<lparr>messages = m, durations = d0, isClient = True, initialMessages = m0,
        welcomeShownRef = True, env = e, toasts = []\<rparr>
     = \<lparr>messages = m, durations = d0, isClient = True, initialMessages = m0,
        welcomeShownRef = True, env = saveMessagesToStorage e m d0, toasts = []\<rparr>"
  using assms by (simp add: next_commit_def save_effect_def)

lemma commit_unchanged:
  "next_commit wm now
       \<lparr>messages = m, durations = d, isClient = b, initialMessages = m0, stored = st\<rparr>
       \<lparr>messages = m, durations = d, isClient = b, initialMessages = m0, stored = st'\<rparr> s = s"
  by (simp add: next_commit_def)

lemma mount_Chat_due:
  assumes "length_is_0 (messages (loadMessagesFromStorage e))"
  shows "snd (mount_Chat wm now e) =
     \<lparr>messages = JArr [welcomeMessage wm now],
      durations = durations (loadMessagesFromStorage e),
      isClient = True,
      initialMessages = messages (loadMessagesFromStorage e),
      welcomeShownRef = True,
      env = saveMessagesToStorage
              (saveMessagesToStorage
                 (saveMessagesToStorage e (messages (loadMessagesFromStorage e))
                    (durations (loadMessagesFromStorage e)))
                 (JArr [welcomeMessage wm now]) (JObj []))
              (JArr [welcomeMessage wm now]) (durations (loadMessagesFromStorage e)),
      toasts = []\<rparr>"
proof -
  have ne: "JArr [welcomeMessage wm now] \<noteq> messages (loadMessagesFromStorage e)"
    using assms welcomeMessage_not_empty by metis
  show ?thesis
    unfolding mount_Chat_def Let_def snd_conv first_commit_eq
    by (simp only: Chat_render_eq Chat_first_render_eq chat_state.simps hooks.simps
        StorageData.simps second_commit_due [OF assms] third_commit_changed [OF ne])
qed

lemma mount_Chat_not_due:
  assumes "\<not> length_is_0 (messages (loadMessagesFromStorage e))"
  shows "snd (mount_Chat wm now e) =
     \<lparr>messages = messages (loadMessagesFromStorage e),
      durations = durations (loadMessagesFromStorage e),
      isClient = True,
      initialMessages = messages (loadMessagesFromStorage e),
      welcomeShownRef = False,
      env = saveMessagesToStorage e (messages (loadMessagesFromStorage e))
              (durations (loadMessagesFromStorage e)),
      toasts = []\<rparr>"
  unfolding mount_Chat_def Let_def snd_conv first_commit_eq
  by (simp only: Chat_render_eq Chat_first_render_eq chat_state.simps hooks.simps
      StorageData.simps second_commit_not_due [OF assms] commit_unchanged)

lemma mount_Chat_closure:
  "fst (mount_Chat wm now e) =
     \<lparr>messages = messages (snd (mount_Chat wm now e)),
      durations = durations (snd (mount_Chat wm now e)),
      isClient = isClient (snd (mount_Chat wm now e)),
      initialMessages = initialMessages (snd (mount_Chat wm now e)),
      stored = stored (fst (mount_Chat wm now e))\<rparr>"
proof (cases "length_is_0 (messages (loadMessagesFromStorage e))")
  case True
  have ne: "JArr [welcomeMessage wm now] \<noteq> messages (loadMessagesFromStorage e)"
    using True welcomeMessage_not_empty by metis
  show ?thesis
    unfolding mount_Chat_def Let_def snd_conv fst_conv first_commit_eq
    by (simp only: Chat_render_eq Chat_first_render_eq chat_state.simps hooks.simps
        StorageData.simps closure.simps second_commit_due [OF True] third_commit_changed [OF ne])
next
  case False
  show ?thesis
    unfolding mount_Chat_def Let_def snd_conv fst_conv first_commit_eq
    by (simp only: Chat_render_eq Chat_first_render_eq chat_state.simps hooks.simps
        StorageData.simps closure.simps second_commit_not_due [OF False] commit_unchanged)
qed

lemma mount_Chat_settled:
  "next_commit wm t (fst (mount_Chat wm now e)) (Chat_render (snd (mount_Chat wm now e)))
     (snd (mount_Chat wm now e)) = snd (mount_Chat wm now e)"
  by (subst (1) mount_Chat_closure) (simp only: Chat_render_eq commit_unchanged)

lemma mount_Chat_initialMessages:
  "initialMessages (fst (mount_Chat wm now e)) = messages (loadMessagesFromStorage e)"
  "initialMessages (snd (mount_Chat wm now e)) = messages (loadMessagesFromStorage e)"
proof -
  show s: "initialMessages (snd (mount_Chat wm now e)) = messages (loadMessagesFromStorage e)"
    by (cases "length_is_0 (messages (loadMessagesFromStorage e))")
       (simp_all add: mount_Chat_due mount_Chat_not_due)
  show "initialMessages (fst (mount_Chat wm now e)) = messages (loadMessagesFromStorage e)"
    by (subst mount_Chat_closure) (simp add: s)
qed

lemma welcomeMessage_typed:
  "welcomeMessage wm now =
     message_json \<lparr>message_id = js ''welcome-'' @ digits now, message_role = Assistant,
                   message_parts = [TextPart wm]\<rparr>"
  by (simp add: welcomeMessage_def message_json_def role_json_def part_json_def)

lemma wf_welcomeMessage: "wf_json (JArr [welcomeMessage wm now])"
  by (simp add: welcomeMessage_typed wf_message)

lemma load_after_welcome_save:
  assumes "window_defined e" and "\<not> getItem_throws (localStorage e)"
    and "\<not> setItem_throws (localStorage e)"
  shows "loadMessagesFromStorage
           (saveMessagesToStorage e (JArr [welcomeMessage wm now]) (JObj []))
         = \<lparr>messages = JArr [welcomeMessage wm now], durations = JObj []\<rparr>"
proof -
  have wf: "wf_json (JObj [])" by simp
  show ?thesis
    using load_after_save [OF assms wf_welcomeMessage wf, of wm now]
    by (simp add: or_else_def falsy_def)
qed

lemma run_until_welcome:
  assumes "loadMessagesFromStorage e = \<lparr>messages = JArr [], durations = JObj D\<rparr>"
  shows "env (snd (run wm [MountEffect, Render, SaveEffect, WelcomeEffect now] (first_mount e)))
         = saveMessagesToStorage (saveMessagesToStorage e (JArr []) (JObj D))
             (JArr [welcomeMessage wm now]) (JObj [])"
  by (simp add: first_mount_def Chat_render_eq Chat_first_render_eq assms mount_effect_def
      save_effect_def welcome_effect_def welcome_due_def length_is_0_array)

text \<open>The mount schedule is one of the runs of the component.\<close>

lemma mount_Chat_is_run:
  "mount_Chat wm now e =
     run wm ([MountEffect, SaveEffect, WelcomeEffect now, Render, SaveEffect, WelcomeEffect now,
              Render]
             @ (if length_is_0 (messages (loadMessagesFromStorage e)) then [SaveEffect] else []))
       (first_mount e)"
proof (cases "length_is_0 (messages (loadMessagesFromStorage e))")
  case True
  have ne: "JArr [welcomeMessage wm now] \<noteq> messages (loadMessagesFromStorage e)"
    using True welcomeMessage_not_empty by metis
  show ?thesis
    using True ne
    by (simp add: mount_Chat_def Let_def first_mount_def first_commit_def next_commit_def
        Chat_render_eq Chat_first_render_eq mount_effect_def save_effect_def welcome_effect_def
        welcome_due_def)
next
  case False
  then show ?thesis
    by (simp add: mount_Chat_def Let_def first_mount_def first_commit_def next_commit_def
        Chat_render_eq Chat_first_render_eq mount_effect_def save_effect_def welcome_effect_def
        welcome_due_def)
qed

subsection \<open>The welcome effect waits for the mount effect\<close>







lemma mount_effect_after_engine:
  "messages (snd (run wm [EngineUpdate ms, MountEffect] (first_mount e)))
     = messages (loadMessagesFromStorage e)"
  by (simp add: first_mount_def Chat_render_eq Chat_first_render_eq mount_effect_def)

subsection \<open>The mount up to the welcome effect\<close>

lemma run_append: "run wm (evs @ evs') cs = run wm evs' (run wm evs cs)"
  by (induction evs arbitrary: cs) simp_all

lemma run_before_welcome:
  "run wm (before_welcome now) (first_mount e) =
     (\<lparr>messages = messages (loadMessagesFromStorage e),
       durations = durations (loadMessagesFromStorage e), isClient = True,
       initialMessages = messages (loadMessagesFromStorage e),
       stored = loadMessagesFromStorage e\<rparr>,
      \<lparr>messages = messages (loadMessagesFromStorage e),
       durations = durations (loadMessagesFromStorage e), isClient = True,
       initialMessages = messages (loadMessagesFromStorage e), welcomeShownRef = False,
       env = saveMessagesToStorage e (messages (loadMessagesFromStorage e))
               (durations (loadMessagesFromStorage e)),
       toasts = []\<rparr>)"
  by (simp add: before_welcome_def first_mount_def Chat_render_eq Chat_first_render_eq
      mount_effect_def save_effect_def welcome_effect_def welcome_due_def)

lemma mount_Chat_after_welcome:
  assumes "length_is_0 (messages (loadMessagesFromStorage e))"
  shows "mount_Chat wm now e =
           run wm [Render, SaveEffect]
             (step wm (WelcomeEffect now) (run wm (before_welcome now) (first_mount e)))"
proof -
  have "mount_Chat wm now e =
      run wm ((before_welcome now @ [WelcomeEffect now]) @ [Render, SaveEffect]) (first_mount e)"
    using assms by (simp add: mount_Chat_is_run before_welcome_def)
  then show ?thesis by (simp only: run_append run.simps)
qed

section \<open>Properties\<close>

text \<open>
  C1. If the loaded record has an empty list of messages, then in the mount of the
  component the welcome effect fires: it sets the transcript to exactly one message, the
  welcome message (an assistant message whose single text part is the welcome string),
  it calls the storage adapter at once with that transcript and an empty duration map,
  and it sets the one-shot flag. Where the store accepts writes, the slot holds exactly
  that record right after the effect, before anything else runs, and loading would
  return it. The mount ends with that transcript and the flag set; from then on,
  whatever happens to the component, no run of the welcome effect changes anything.
\<close>

theorem welcome_once:
  assumes "messages (loadMessagesFromStorage e) = JArr []"
  shows "welcome_due (fst (run wm (before_welcome now) (first_mount e)))
           (snd (run wm (before_welcome now) (first_mount e)))
     \<and> messages (snd (step wm (WelcomeEffect now) (run wm (before_welcome now) (first_mount e))))
         = JArr [welcomeMessage wm now]
     \<and> welcomeMessage wm now =
         message_json \<lparr>message_id = js ''welcome-'' @ digits now, message_role = Assistant,
                       message_parts = [TextPart wm]\<rparr>
     \<and> welcomeShownRef
          (snd (step wm (WelcomeEffect now) (run wm (before_welcome now) (first_mount e))))
     \<and> env (snd (step wm (WelcomeEffect now) (run wm (before_welcome now) (first_mount e))))
         = saveMessagesToStorage (env (snd (run wm (before_welcome now) (first_mount e))))
             (JArr [welcomeMessage wm now]) (JObj [])
     \<and> (window_defined e \<and> \<not> setItem_throws (localStorage e) \<longrightarrow>
          map_of (items (localStorage (env (snd (step wm (WelcomeEffect now)
                    (run wm (before_welcome now) (first_mount e))))))) STORAGE_KEY
            = Some (JSON_stringify (JObj [(js ''messages'', JArr [welcomeMessage wm now]),
                                           (js ''durations'', JObj [])])))
     \<and> (window_defined e \<and> \<not> getItem_throws (localStorage e)
          \<and> \<not> setItem_throws (localStorage e) \<longrightarrow>
          loadMessagesFromStorage (env (snd (step wm (WelcomeEffect now)
              (run wm (before_welcome now) (first_mount e)))))
            = \<lparr>messages = JArr [welcomeMessage wm now], durations = JObj []\<rparr>)
     \<and> mount_Chat wm now e =
           run wm [Render, SaveEffect]
             (step wm (WelcomeEffect now) (run wm (before_welcome now) (first_mount e)))
     \<and> messages (snd (mount_Chat wm now e)) = JArr [welcomeMessage wm now]
     \<and> welcomeShownRef (snd (mount_Chat wm now e))
     \<and> injections wm evs (mount_Chat wm now e) = 0
     \<and> (\<forall>t. welcome_effect wm t (fst (run wm evs (mount_Chat wm now e)))
                (snd (run wm evs (mount_Chat wm now e)))
              = snd (run wm evs (mount_Chat wm now e)))"
proof -
  let ?B = "run wm (before_welcome now) (first_mount e)"
  let ?A = "snd (step wm (WelcomeEffect now) ?B)"
  let ?e1 = "saveMessagesToStorage e (JArr []) (durations (loadMessagesFromStorage e))"
  have len: "length_is_0 (messages (loadMessagesFromStorage e))"
    using assms by (simp add: length_is_0_array)
  have due: "welcome_due (fst ?B) (snd ?B)"
    by (simp add: run_before_welcome welcome_due_def assms length_is_0_array)
  have envB: "env (snd ?B) = ?e1"
    by (simp add: run_before_welcome assms)
  have A: "?A = (snd ?B)\<lparr>messages := JArr [welcomeMessage wm now],
       env := saveMessagesToStorage (env (snd ?B)) (JArr [welcomeMessage wm now]) (JObj []),
       welcomeShownRef := True\<rparr>"
    using welcome_effect_fires [OF due, of wm now] by (cases ?B) simp
  have mA: "messages ?A = JArr [welcomeMessage wm now]" by (simp add: A)
  have fA: "welcomeShownRef ?A" by (simp add: A)
  have eA: "env ?A
      = saveMessagesToStorage (env (snd ?B)) (JArr [welcomeMessage wm now]) (JObj [])"
    by (simp add: A)
  have slot: "map_of (items (localStorage (env ?A))) STORAGE_KEY
            = Some (JSON_stringify (JObj [(js ''messages'', JArr [welcomeMessage wm now]),
                                           (js ''durations'', JObj [])]))"
    if "window_defined e \<and> \<not> setItem_throws (localStorage e)"
  proof -
    have "window_defined ?e1" "\<not> setItem_throws (localStorage ?e1)"
      using that by (simp_all add: save_flags)
    then show ?thesis
      unfolding eA envB by (simp add: save_working update_conv')
  qed
  have load: "loadMessagesFromStorage (env ?A)
            = \<lparr>messages = JArr [welcomeMessage wm now], durations = JObj []\<rparr>"
    if "window_defined e \<and> \<not> getItem_throws (localStorage e)
          \<and> \<not> setItem_throws (localStorage e)"
  proof -
    have w: "window_defined ?e1" "\<not> getItem_throws (localStorage ?e1)"
      "\<not> setItem_throws (localStorage ?e1)"
      using that by (simp_all add: save_flags)
    show ?thesis
      unfolding eA envB by (rule load_after_welcome_save [OF w])
  qed
  note st = mount_Chat_due [OF len, of wm now]
  have flag: "welcomeShownRef (snd (mount_Chat wm now e))" by (simp add: st)
  have msgs: "messages (snd (mount_Chat wm now e)) = JArr [welcomeMessage wm now]"
    by (simp add: st)
  have later: "welcomeShownRef (snd (run wm evs (mount_Chat wm now e)))"
    by (rule run_flag [OF flag])
  have idle: "welcome_effect wm t (fst (run wm evs (mount_Chat wm now e)))
                (snd (run wm evs (mount_Chat wm now e)))
              = snd (run wm evs (mount_Chat wm now e))" for t
    by (rule welcome_effect_idle [OF flag_blocks [OF later]])
  from due mA welcomeMessage_typed [of wm now] fA eA slot load
    mount_Chat_after_welcome [OF len, of wm now] msgs flag injections_flag [OF flag, of wm evs] idle
  show ?thesis by blast
qed

theorem welcome_once_witness:
  "messages (loadMessagesFromStorage (browser [])) = JArr []
   \<and> window_defined (browser [])
   \<and> \<not> getItem_throws (localStorage (browser []))
   \<and> \<not> setItem_throws (localStorage (browser []))
   \<and> map_of (items (localStorage (env (snd (step (js ''Welcome'') (WelcomeEffect 42)
           (run (js ''Welcome'') (before_welcome 42) (first_mount (browser [])))))))) STORAGE_KEY
       = Some (JSON_stringify (JObj [(js ''messages'', JArr [welcomeMessage (js ''Welcome'') 42]),
                                      (js ''durations'', JObj [])]))
   \<and> loadMessagesFromStorage (env (snd (step (js ''Welcome'') (WelcomeEffect 42)
           (run (js ''Welcome'') (before_welcome 42) (first_mount (browser []))))))
       = \<lparr>messages = JArr [welcomeMessage (js ''Welcome'') 42], durations = JObj []\<rparr>
   \<and> messages (snd (mount_Chat (js ''Welcome'') 42 (browser [])))
       = JArr [welcomeMessage (js ''Welcome'') 42]
   \<and> welcomeShownRef (snd (mount_Chat (js ''Welcome'') 42 (browser [])))
   \<and> injections (js ''Welcome'') [ClearChat, Render, WelcomeEffect 43]
        (mount_Chat (js ''Welcome'') 42 (browser [])) = 0"
proof -
  have h: "messages (loadMessagesFromStorage (browser [])) = JArr []"
    by (simp add: loadMessagesFromStorage_def browser_def getItem_def empty_data_def)
  have w: "window_defined (browser [])" "\<not> getItem_throws (localStorage (browser []))"
    "\<not> setItem_throws (localStorage (browser []))"
    by (simp_all add: browser_def)
  from welcome_once [OF h, of "js ''Welcome''" 42 "[ClearChat, Render, WelcomeEffect 43]"] h w
  show ?thesis by blast
qed

text \<open>
  C2. If the loaded record has a non-empty list of messages, the welcome effect never
  fires: in every run of the component it leaves the state as it is, and mounting ends
  with the restored transcript, the restored durations and the flag unset.
\<close>

theorem welcome_skipped:
  assumes "messages (loadMessagesFromStorage e) = JArr (x # xs)"
  shows "injections wm evs (first_mount e) = 0
     \<and> (\<forall>t. welcome_effect wm t (fst (run wm evs (first_mount e)))
                (snd (run wm evs (first_mount e)))
              = snd (run wm evs (first_mount e)))
     \<and> \<not> welcomeShownRef (snd (mount_Chat wm now e))
     \<and> messages (snd (mount_Chat wm now e)) = JArr (x # xs)
     \<and> durations (snd (mount_Chat wm now e)) = durations (loadMessagesFromStorage e)
     \<and> injections wm evs (mount_Chat wm now e) = 0"
proof -
  have nd: "\<not> length_is_0 (messages (loadMessagesFromStorage e))"
    using assms by (simp add: length_is_0_array)
  note st = mount_Chat_not_due [OF nd, of wm now]
  have i0: "initialMessages (fst (first_mount e)) = JArr (x # xs)"
    "initialMessages (snd (first_mount e)) = JArr (x # xs)"
    using assms by (simp_all add: first_mount_initialMessages)
  have c: "initialMessages (fst (first_mount e)) = initialMessages (snd (first_mount e))"
    using i0 by simp
  have "initialMessages (fst (run wm evs (first_mount e))) = JArr (x # xs)"
    using run_initialMessages [OF c, of wm evs] i0 by simp
  then have idle: "welcome_effect wm t (fst (run wm evs (first_mount e)))
                (snd (run wm evs (first_mount e)))
              = snd (run wm evs (first_mount e))" for t
    by (intro welcome_effect_idle not_due_nonempty)
  have m0: "initialMessages (fst (mount_Chat wm now e)) = JArr (x # xs)"
    "initialMessages (snd (mount_Chat wm now e)) = JArr (x # xs)"
    using assms by (simp_all add: mount_Chat_initialMessages)
  show ?thesis
    using idle injections_nonempty [OF i0] injections_nonempty [OF m0]
    by (simp add: st assms)
qed

theorem welcome_skipped_witness:
  "messages (loadMessagesFromStorage (browser [(STORAGE_KEY, hi_blob)]))
     = JArr (message_json hi_message # [])
   \<and> messages (snd (mount_Chat (js ''Welcome'') 42 (browser [(STORAGE_KEY, hi_blob)])))
       = JArr [message_json hi_message]
   \<and> \<not> welcomeShownRef (snd (mount_Chat (js ''Welcome'') 42 (browser [(STORAGE_KEY, hi_blob)])))
   \<and> injections (js ''Welcome'') [MountEffect, Render, SaveEffect, WelcomeEffect 42]
        (first_mount (browser [(STORAGE_KEY, hi_blob)])) = 0"
proof -
  let ?e = "browser [(STORAGE_KEY, hi_blob)]"
  have w: "window_defined ?e" by (simp add: browser_def)
  have g: "getItem (localStorage ?e) STORAGE_KEY = Inr (Some hi_blob)"
    by (simp add: browser_def getItem_def)
  have h: "messages (loadMessagesFromStorage ?e) = JArr (message_json hi_message # [])"
    by (simp add: load_hi_blob [OF w g] messages_json_def)
  from welcome_skipped [OF h, of "js ''Welcome''"
      "[MountEffect, Render, SaveEffect, WelcomeEffect 42]" 42] h
  show ?thesis by blast
qed

text \<open>
  C3. When storage is available, reading does not throw and the write succeeds,
  saving a conversation record and loading it again gives back the same record: the same
  messages in the same order and the same durations. (The encodings of messages and of
  durations are injective, see above, so equal values mean equal records.)
\<close>

theorem save_load_roundtrip:
  assumes "window_defined e" and "\<not> getItem_throws (localStorage e)"
    and "\<not> setItem_throws (localStorage e)" and "distinct (map fst ds)"
  shows "loadMessagesFromStorage (saveMessagesToStorage e (messages_json ms) (durations_json ds))
           = \<lparr>messages = messages_json ms, durations = durations_json ds\<rparr>"
  using load_after_save [OF assms(1,2,3) wf_messages wf_durations [OF assms(4)], of ms]
  by (simp add: or_else_def falsy_def messages_json_def durations_json_def)

theorem save_load_roundtrip_witness:
  "window_defined (browser [])
   \<and> \<not> getItem_throws (localStorage (browser []))
   \<and> \<not> setItem_throws (localStorage (browser []))
   \<and> distinct (map fst [(js ''m2'', 1200::nat)])
   \<and> loadMessagesFromStorage (saveMessagesToStorage (browser [])
        (messages_json [\<lparr>message_id = js ''m1'', message_role = User,
                           message_parts = [TextPart (js ''hi'')]\<rparr>,
                        \<lparr>message_id = js ''m2'', message_role = Assistant,
                           message_parts = [TextPart (js ''hello''), TextPart (js ''there'')]\<rparr>])
        (durations_json [(js ''m2'', 1200)]))
     = \<lparr>messages = messages_json [\<lparr>message_id = js ''m1'', message_role = User,
                           message_parts = [TextPart (js ''hi'')]\<rparr>,
                        \<lparr>message_id = js ''m2'', message_role = Assistant,
                           message_parts = [TextPart (js ''hello''), TextPart (js ''there'')]\<rparr>],
        durations = durations_json [(js ''m2'', 1200)]\<rparr>"
proof -
  have a: "window_defined (browser [])" "\<not> getItem_throws (localStorage (browser []))"
    "\<not> setItem_throws (localStorage (browser []))" "distinct (map fst [(js ''m2'', 1200::nat)])"
    by (simp_all add: browser_def)
  show ?thesis
    using a save_load_roundtrip [OF a] by simp
qed

text \<open>
  The proviso is needed: when the write throws, saving is a no-op and loading gives the
  empty record, not the record that was saved.
\<close>

theorem save_load_counterexample:
  "loadMessagesFromStorage (saveMessagesToStorage (full_browser [])
        (messages_json [hi_message]) (durations_json []))
   = empty_data
   \<and> empty_data \<noteq> \<lparr>messages = messages_json [hi_message], durations = durations_json []\<rparr>"
  by (simp add: save_failing full_browser_def loadMessagesFromStorage_def getItem_def
      empty_data_def messages_json_def)

text \<open>
  C4. Loading is fail-soft: when there is no window, when reading the slot throws, when
  the key is absent, or when the stored text is not JSON (or is JSON but not an object),
  the result is the empty record. The text \<open>not-json\<close> is such a text.
\<close>

theorem load_fail_soft:
  "(\<not> window_defined e
    \<or> (\<exists>err. getItem (localStorage e) STORAGE_KEY = Inl err)
    \<or> getItem (localStorage e) STORAGE_KEY = Inr None
    \<or> (\<exists>s. getItem (localStorage e) STORAGE_KEY = Inr (Some s)
          \<and> ((\<exists>err. JSON_parse s = Inl err) \<or> (\<exists>v. JSON_parse s = Inr v \<and> \<not> is_object v)))
    \<longrightarrow> loadMessagesFromStorage e = empty_data)
   \<and> JSON_parse (js ''not-json'') = Inl SyntaxError
   \<and> (map_of (items (localStorage e)) STORAGE_KEY = Some (js ''not-json'')
        \<longrightarrow> loadMessagesFromStorage e = empty_data)"
proof (intro conjI impI)
  assume "\<not> window_defined e
    \<or> (\<exists>err. getItem (localStorage e) STORAGE_KEY = Inl err)
    \<or> getItem (localStorage e) STORAGE_KEY = Inr None
    \<or> (\<exists>s. getItem (localStorage e) STORAGE_KEY = Inr (Some s)
          \<and> ((\<exists>err. JSON_parse s = Inl err) \<or> (\<exists>v. JSON_parse s = Inr v \<and> \<not> is_object v)))"
  then show "loadMessagesFromStorage e = empty_data"
  proof (elim disjE exE conjE)
    fix s v assume "getItem (localStorage e) STORAGE_KEY = Inr (Some s)" "JSON_parse s = Inr v"
      "\<not> is_object v"
    then show ?thesis by (rule load_non_object)
  qed (simp_all add: loadMessagesFromStorage_def)
next
  show bad: "JSON_parse (js ''not-json'') = Inl SyntaxError"
    by (simp add: JSON_parse_def js_def parse_value.simps skip_ws_def is_ws_def parse_literal_def)
  assume "map_of (items (localStorage e)) STORAGE_KEY = Some (js ''not-json'')"
  with bad show "loadMessagesFromStorage e = empty_data"
    by (simp add: loadMessagesFromStorage_def getItem_def)
qed

theorem load_fail_soft_witness:
  "map_of (items (localStorage (browser [(STORAGE_KEY, js ''not-json'')]))) STORAGE_KEY
     = Some (js ''not-json'')
   \<and> loadMessagesFromStorage (browser [(STORAGE_KEY, js ''not-json'')]) = empty_data"
  using load_fail_soft [of "browser [(STORAGE_KEY, js ''not-json'')]"]
  by (simp add: browser_def)

text \<open>
  C5. For a stored text that parses to an object, a missing field is replaced by
  its empty form, each field on its own; a field that is present is returned as stored
  when it is truthy, and replaced by the empty form when it is \<open>null\<close>, \<open>false\<close>, zero
  or the empty string.
\<close>

theorem load_defaults_fields:
  assumes "window_defined e"
    and "getItem (localStorage e) STORAGE_KEY = Inr (Some s)"
    and "JSON_parse s = Inr (JObj kvs)"
  shows "(map_of kvs (js ''messages'') = None \<longrightarrow> messages (loadMessagesFromStorage e) = JArr [])
       \<and> (map_of kvs (js ''durations'') = None \<longrightarrow> durations (loadMessagesFromStorage e) = JObj [])
       \<and> (\<forall>m. map_of kvs (js ''messages'') = Some m \<longrightarrow>
              messages (loadMessagesFromStorage e) = (if falsy m then JArr [] else m))
       \<and> (\<forall>d. map_of kvs (js ''durations'') = Some d \<longrightarrow>
              durations (loadMessagesFromStorage e) = (if falsy d then JObj [] else d))"
  by (simp add: load_object [OF assms] or_else_def)

theorem load_defaults_fields_witness:
  "window_defined (browser [(STORAGE_KEY, js ''{\"durations\":{\"a\":1}}'')])
   \<and> getItem (localStorage (browser [(STORAGE_KEY, js ''{\"durations\":{\"a\":1}}'')])) STORAGE_KEY
       = Inr (Some (js ''{\"durations\":{\"a\":1}}''))
   \<and> JSON_parse (js ''{\"durations\":{\"a\":1}}'')
       = Inr (JObj [(js ''durations'', JObj [(js ''a'', JNum 1 0)])])
   \<and> map_of [(js ''durations'', JObj [(js ''a'', JNum 1 0)])] (js ''messages'') = None
   \<and> messages (loadMessagesFromStorage (browser [(STORAGE_KEY, js ''{\"durations\":{\"a\":1}}'')]))
       = JArr []
   \<and> durations (loadMessagesFromStorage (browser [(STORAGE_KEY, js ''{\"durations\":{\"a\":1}}'')]))
       = JObj [(js ''a'', JNum 1 0)]"
proof -
  have w: "window_defined (browser [(STORAGE_KEY, js ''{\"durations\":{\"a\":1}}'')])"
    by (simp add: browser_def)
  have g: "getItem (localStorage (browser [(STORAGE_KEY, js ''{\"durations\":{\"a\":1}}'')])) STORAGE_KEY
       = Inr (Some (js ''{\"durations\":{\"a\":1}}''))"
    by (simp add: browser_def getItem_def)
  show ?thesis
    using w g parse_durations_a load_defaults_fields [OF w g parse_durations_a]
    by (simp add: js_def falsy_def)
qed

text \<open>
  The other field is not always returned unchanged: in the stored text
  \<open>{"durations":0}\<close> the field \<open>messages\<close> is missing and \<open>durations\<close> is 0, and
  loading returns the empty map for \<open>durations\<close>.
\<close>

theorem load_keeps_other_field_counterexample:
  "JSON_parse (js ''{\"durations\":0}'') = Inr (JObj [(js ''durations'', JNum 0 0)])
   \<and> map_of [(js ''durations'', JNum 0 0)] (js ''messages'') = None
   \<and> map_of [(js ''durations'', JNum 0 0)] (js ''durations'') = Some (JNum 0 0)
   \<and> durations (loadMessagesFromStorage (browser [(STORAGE_KEY, js ''{\"durations\":0}'')]))
       \<noteq> JNum 0 0"
proof -
  have w: "window_defined (browser [(STORAGE_KEY, js ''{\"durations\":0}'')])"
    by (simp add: browser_def)
  have g: "getItem (localStorage (browser [(STORAGE_KEY, js ''{\"durations\":0}'')])) STORAGE_KEY
       = Inr (Some (js ''{\"durations\":0}''))"
    by (simp add: browser_def getItem_def)
  show ?thesis
    using parse_durations_0 load_object [OF w g parse_durations_0]
    by (simp add: js_def or_else_def falsy_def)
qed

text \<open>
  C6. Recording a duration is an upsert: from any duration map \<open>D\<close>, recording \<open>v\<close>
  under \<open>k\<close> gives a map that binds \<open>k\<close> to \<open>v\<close> and agrees with \<open>D\<close> on every other
  key (and whose keys are still distinct); from \<open>{a: 10}\<close>, recording 20 under \<open>b\<close>
  gives \<open>{a: 10, b: 20}\<close>.
\<close>

theorem handleDurationChange_upsert:
  "durations (handleDurationChange k v (s\<lparr>durations := JObj D\<rparr>))
     = JObj (AList.update k v D)
   \<and> map_of (AList.update k v D) = (map_of D)(k \<mapsto> v)
   \<and> (\<forall>k'. k' \<noteq> k \<longrightarrow> map_of (AList.update k v D) k' = map_of D k')
   \<and> (distinct (map fst D) \<longrightarrow> distinct (map fst (AList.update k v D)))
   \<and> durations (handleDurationChange (js ''b'') (JNum 20 0)
        (s\<lparr>durations := JObj [(js ''a'', JNum 10 0)]\<rparr>))
       = JObj [(js ''a'', JNum 10 0), (js ''b'', JNum 20 0)]"
  by (simp add: handleDurationChange_def own_props_def update_conv' js_def distinct_update)

theorem handleDurationChange_upsert_witness:
  "durations (handleDurationChange (js ''a'') (JNum 30 0)
      (Chat_first_render (browser [])
       \<lparr>durations := JObj [(js ''a'', JNum 10 0), (js ''c'', JNum 5 0)]\<rparr>))
     = JObj [(js ''a'', JNum 30 0), (js ''c'', JNum 5 0)]
   \<and> js ''c'' \<noteq> js ''a''
   \<and> map_of (AList.update (js ''a'') (JNum 30 0) [(js ''a'', JNum 10 0), (js ''c'', JNum 5 0)])
        (js ''c'') = Some (JNum 5 0)
   \<and> distinct (map fst [(js ''a'', JNum 10 0), (js ''c'', JNum 5 0)])"
  using handleDurationChange_upsert [where k = "js ''a''" and v = "JNum 30 0"
      and s = "Chat_first_render (browser [])"
      and D = "[(js ''a'', JNum 10 0), (js ''c'', JNum 5 0)]"]
  by (simp add: js_def)

text \<open>
  C7. Clearing the chat empties the transcript and the duration map, hands the
  empty record to the storage adapter and reports success through a toast. Loading
  afterwards gives the empty record whenever storage is unavailable, unreadable, or
  accepted the write.
\<close>

theorem clearChat_resets:
  "messages (clearChat s) = JArr []
   \<and> durations (clearChat s) = JObj []
   \<and> env (clearChat s) = saveMessagesToStorage (env s) (JArr []) (JObj [])
   \<and> toasts (clearChat s) = toasts s @ [js ''Chat cleared'']
   \<and> (\<not> window_defined (env s) \<or> getItem_throws (localStorage (env s))
        \<or> \<not> setItem_throws (localStorage (env s))
       \<longrightarrow> loadMessagesFromStorage (env (clearChat s)) = empty_data)"
proof -
  have "loadMessagesFromStorage (saveMessagesToStorage (env s) (JArr []) (JObj [])) = empty_data"
    if "\<not> window_defined (env s) \<or> getItem_throws (localStorage (env s))
        \<or> \<not> setItem_throws (localStorage (env s))"
  proof (cases "\<not> window_defined (env s) \<or> getItem_throws (localStorage (env s))")
    case True
    then show ?thesis by (intro load_unavailable) (simp add: save_flags)
  next
    case False
    with that show ?thesis
      by (simp add: load_after_save or_else_def falsy_def empty_data_def)
  qed
  then show ?thesis by (simp add: clearChat_def)
qed

theorem clearChat_resets_witness:
  "\<not> setItem_throws (localStorage (env (Chat_first_render (browser [(STORAGE_KEY, hi_blob)]))))
   \<and> messages (Chat_first_render (browser [(STORAGE_KEY, hi_blob)])) = messages_json [hi_message]
   \<and> messages (clearChat (Chat_first_render (browser [(STORAGE_KEY, hi_blob)]))) = JArr []
   \<and> loadMessagesFromStorage (env (clearChat (Chat_first_render (browser [(STORAGE_KEY, hi_blob)]))))
       = empty_data"
proof -
  let ?e = "browser [(STORAGE_KEY, hi_blob)]"
  let ?s = "Chat_first_render ?e"
  have w: "window_defined ?e" by (simp add: browser_def)
  have g: "getItem (localStorage ?e) STORAGE_KEY = Inr (Some hi_blob)"
    by (simp add: browser_def getItem_def)
  have e: "env ?s = ?e" by (simp add: Chat_first_render_def Let_def)
  have ns: "\<not> setItem_throws (localStorage (env ?s))" unfolding e by (simp add: browser_def)
  have m: "messages ?s = messages_json [hi_message]"
    by (simp add: Chat_first_render_def Let_def w load_hi_blob [OF w g])
  from clearChat_resets [of ?s] ns
  have "messages (clearChat ?s) = JArr []" "loadMessagesFromStorage (env (clearChat ?s)) = empty_data"
    by blast+
  with ns m show ?thesis by blast
qed

text \<open>
  When the write throws while the slot can still be read, the old record survives the
  reset and loading returns it.
\<close>

theorem clearChat_load_counterexample:
  "loadMessagesFromStorage
      (env (clearChat (Chat_first_render (full_browser [(STORAGE_KEY, hi_blob)]))))
     = \<lparr>messages = messages_json [hi_message], durations = JObj []\<rparr>
   \<and> loadMessagesFromStorage
      (env (clearChat (Chat_first_render (full_browser [(STORAGE_KEY, hi_blob)]))))
     \<noteq> empty_data"
proof -
  let ?e = "full_browser [(STORAGE_KEY, hi_blob)]"
  have w: "window_defined ?e" by (simp add: full_browser_def)
  have g: "getItem (localStorage ?e) STORAGE_KEY = Inr (Some hi_blob)"
    by (simp add: full_browser_def getItem_def)
  have f: "setItem_throws (localStorage ?e)" by (simp add: full_browser_def)
  have e: "env (clearChat (Chat_first_render ?e)) = ?e"
    using f by (simp add: clearChat_def Chat_first_render_def Let_def save_failing)
  have "messages_json [hi_message] \<noteq> JArr []" by (simp add: messages_json_def)
  then show ?thesis
    unfolding e load_hi_blob [OF w g] by (simp add: empty_data_def)
qed

text \<open>
  C8. Clearing the chat does not touch the welcome flag; from a first mount, any run
  contains at most one firing of the welcome effect; and once it has fired, the flag is
  set, it is still set after a later reset, and no run that contains a reset has a second
  firing.
\<close>

theorem welcome_at_most_once:
  "welcomeShownRef (clearChat s) = welcomeShownRef s
   \<and> injections wm evs (first_mount e) \<le> 1
   \<and> (0 < injections wm evs1 cs \<longrightarrow>
        welcomeShownRef (snd (run wm evs1 cs))
        \<and> welcomeShownRef (snd (run wm (evs1 @ evs2 @ [ClearChat]) cs))
        \<and> injections wm (evs2 @ ClearChat # evs3) (run wm evs1 cs) = 0)"
proof (intro conjI impI)
  show "welcomeShownRef (clearChat s) = welcomeShownRef s" by (simp add: clearChat_def)
  show "injections wm evs (first_mount e) \<le> 1" by (rule injections_le_1)
next
  assume fired: "0 < injections wm evs1 cs"
  show flag: "welcomeShownRef (snd (run wm evs1 cs))" by (rule fired_sets_flag [OF fired])
  have "run wm (evs1 @ evs2 @ [ClearChat]) cs = run wm (evs2 @ [ClearChat]) (run wm evs1 cs)"
    by (induction evs1 arbitrary: cs) simp_all
  then show "welcomeShownRef (snd (run wm (evs1 @ evs2 @ [ClearChat]) cs))"
    using run_flag [OF flag] by simp
  show "injections wm (evs2 @ ClearChat # evs3) (run wm evs1 cs) = 0"
    by (rule injections_flag [OF flag])
qed

theorem welcome_at_most_once_witness:
  "0 < injections (js ''Welcome'') [MountEffect, Render, WelcomeEffect 42] (first_mount (browser []))
   \<and> injections (js ''Welcome'') ([] @ ClearChat # [Render, WelcomeEffect 43])
       (run (js ''Welcome'') [MountEffect, Render, WelcomeEffect 42] (first_mount (browser []))) = 0
   \<and> welcomeShownRef (snd (run (js ''Welcome'')
        ([MountEffect, Render, WelcomeEffect 42] @ [] @ [ClearChat]) (first_mount (browser []))))"
proof -
  have l: "loadMessagesFromStorage (browser []) = empty_data"
    by (simp add: loadMessagesFromStorage_def browser_def getItem_def)
  have f: "0 < injections (js ''Welcome'') [MountEffect, Render, WelcomeEffect 42]
      (first_mount (browser []))"
    by (simp add: first_mount_def Chat_render_eq Chat_first_render_eq l empty_data_def
        mount_effect_def welcome_due_def length_is_0_array)
  from welcome_at_most_once [of _ "js ''Welcome''" _ _ "[MountEffect, Render, WelcomeEffect 42]"
      "first_mount (browser [])" "[]" "[Render, WelcomeEffect 43]"] f
  show ?thesis by blast
qed




text \<open>
  C10. When the welcome effect fires, what it saves is the record of the welcome message
  with an empty duration map. In a working store the slot then holds exactly that record;
  for a stored record with no message and a non-empty duration map, loading right after
  the welcome effect gives the empty duration map, not the restored one.
\<close>

theorem welcome_save_drops_durations:
  "(welcome_due c s \<longrightarrow>
      env (welcome_effect wm now c s)
        = saveMessagesToStorage (env s) (JArr [welcomeMessage wm now]) (JObj []))
   \<and> (welcome_due c s \<and> window_defined (env s) \<and> \<not> setItem_throws (localStorage (env s)) \<longrightarrow>
        map_of (items (localStorage (env (welcome_effect wm now c s)))) STORAGE_KEY
          = Some (JSON_stringify (JObj [(js ''messages'', JArr [welcomeMessage wm now]),
                                         (js ''durations'', JObj [])])))
   \<and> (window_defined e \<and> \<not> getItem_throws (localStorage e) \<and> \<not> setItem_throws (localStorage e)
        \<and> loadMessagesFromStorage e = \<lparr>messages = JArr [], durations = JObj D\<rparr> \<and> D \<noteq> [] \<longrightarrow>
        loadMessagesFromStorage
          (env (snd (run wm [MountEffect, Render, SaveEffect, WelcomeEffect now] (first_mount e))))
          = \<lparr>messages = JArr [welcomeMessage wm now], durations = JObj []\<rparr>
        \<and> JObj [] \<noteq> JObj D)"
proof (intro conjI impI)
  assume "welcome_due c s"
  then show "env (welcome_effect wm now c s)
        = saveMessagesToStorage (env s) (JArr [welcomeMessage wm now]) (JObj [])"
    by (simp add: welcome_effect_def)
next
  assume "welcome_due c s \<and> window_defined (env s) \<and> \<not> setItem_throws (localStorage (env s))"
  then show "map_of (items (localStorage (env (welcome_effect wm now c s)))) STORAGE_KEY
          = Some (JSON_stringify (JObj [(js ''messages'', JArr [welcomeMessage wm now]),
                                         (js ''durations'', JObj [])]))"
    by (simp add: welcome_effect_def save_working update_conv')
next
  assume a: "window_defined e \<and> \<not> getItem_throws (localStorage e)
      \<and> \<not> setItem_throws (localStorage e)
      \<and> loadMessagesFromStorage e = \<lparr>messages = JArr [], durations = JObj D\<rparr> \<and> D \<noteq> []"
  let ?e1 = "saveMessagesToStorage e (JArr []) (JObj D)"
  have w: "window_defined ?e1" "\<not> getItem_throws (localStorage ?e1)"
    "\<not> setItem_throws (localStorage ?e1)"
    using a by (simp_all add: save_flags)
  show "loadMessagesFromStorage
          (env (snd (run wm [MountEffect, Render, SaveEffect, WelcomeEffect now] (first_mount e))))
          = \<lparr>messages = JArr [welcomeMessage wm now], durations = JObj []\<rparr>"
    using a by (simp only: run_until_welcome load_after_welcome_save [OF w])
  show "JObj [] \<noteq> JObj D" using a by auto
qed

theorem welcome_save_drops_durations_witness:
  "loadMessagesFromStorage (browser [(STORAGE_KEY, durations_blob)])
     = \<lparr>messages = JArr [], durations = JObj [(js ''a'', JNum 1 0)]\<rparr>
   \<and> loadMessagesFromStorage
        (env (snd (run (js ''Welcome'') [MountEffect, Render, SaveEffect, WelcomeEffect 42]
           (first_mount (browser [(STORAGE_KEY, durations_blob)])))))
     = \<lparr>messages = JArr [welcomeMessage (js ''Welcome'') 42], durations = JObj []\<rparr>"
proof -
  let ?e = "browser [(STORAGE_KEY, durations_blob)]"
  have w: "window_defined ?e" "\<not> getItem_throws (localStorage ?e)"
    "\<not> setItem_throws (localStorage ?e)"
    by (simp_all add: browser_def)
  have g: "getItem (localStorage ?e) STORAGE_KEY = Inr (Some durations_blob)"
    by (simp add: browser_def getItem_def)
  have l: "loadMessagesFromStorage ?e
     = \<lparr>messages = JArr [], durations = JObj [(js ''a'', JNum 1 0)]\<rparr>"
    using load_object [OF w(1) g parse_durations_blob] keys_distinct
    by (simp add: or_else_def falsy_def)
  have d: "[(js ''a'', JNum 1 0)] \<noteq> []" by simp
  from welcome_save_drops_durations [of _ _ "js ''Welcome''" 42 ?e "[(js ''a'', JNum 1 0)]"]
    w l d
  show ?thesis by blast
qed

end
